theory Spec2Isabelle
  imports Main "HOL-Library.Word"
begin

section \<open>Characters, as the C library classifies them in the classic locale\<close>

definition isdigit :: "char \<Rightarrow> bool" where
  "isdigit c = (48 \<le> (of_char c :: nat) \<and> (of_char c :: nat) \<le> 57)"

definition isupper :: "char \<Rightarrow> bool" where
  "isupper c = (65 \<le> (of_char c :: nat) \<and> (of_char c :: nat) \<le> 90)"

definition islower :: "char \<Rightarrow> bool" where
  "islower c = (97 \<le> (of_char c :: nat) \<and> (of_char c :: nat) \<le> 122)"

definition isalpha :: "char \<Rightarrow> bool" where
  "isalpha c = (isupper c \<or> islower c)"

definition isspace :: "char \<Rightarrow> bool" where
  "isspace c = ((of_char c :: nat) = 32 \<or> (9 \<le> (of_char c :: nat) \<and> (of_char c :: nat) \<le> 13))"

definition isxdigit :: "char \<Rightarrow> bool" where
  "isxdigit c = (isdigit c
     \<or> (65 \<le> (of_char c :: nat) \<and> (of_char c :: nat) \<le> 70)
     \<or> (97 \<le> (of_char c :: nat) \<and> (of_char c :: nat) \<le> 102))"

definition tolower :: "char \<Rightarrow> char" where
  "tolower c = (if isupper c then char_of ((of_char c :: nat) + 32) else c)"

definition digit_val :: "char \<Rightarrow> nat" where
  "digit_val c = (of_char c :: nat) - 48"

definition hex_val :: "char \<Rightarrow> nat" where
  "hex_val c = (if isdigit c then (of_char c :: nat) - 48
                else if (of_char c :: nat) \<le> 70 then (of_char c :: nat) - 55
                else (of_char c :: nat) - 87)"

section \<open>Regular expressions with the backtracking order of ECMAScript\<close>

text \<open>
  A character class of the two patterns of \<open>url_impl.hpp\<close>: a literal character, a negated
  bracket \<open>[^...]\<close>, the dot (every character but the line terminators) and \<open>\d\<close>.
\<close>

datatype cls = Lit char | NoneOf string | AnyChar | Digit

fun cls_ok :: "cls \<Rightarrow> char \<Rightarrow> bool" where
  "cls_ok (Lit a) c = (c = a)"
| "cls_ok (NoneOf xs) c = (c \<notin> set xs)"
| "cls_ok AnyChar c = (c \<noteq> CHR 0x0A \<and> c \<noteq> CHR 0x0D)"
| "cls_ok Digit c = isdigit c"

datatype regex =
    Atom cls
  | Eps
  | Seq regex regex
  | Alt regex regex
  | Opt regex
  | Star regex
  | Grp nat regex
  | Bol
  | Eol

text \<open>\<open>r+\<close> and the bounded repetition \<open>r{m,n}\<close>, both greedy.\<close>

definition Plus :: "regex \<Rightarrow> regex" where
  "Plus r = Seq r (Star r)"

fun Rep :: "nat \<Rightarrow> nat \<Rightarrow> regex \<Rightarrow> regex" where
  "Rep 0 0 r = Eps"
| "Rep 0 (Suc n) r = Opt (Seq r (Rep 0 n r))"
| "Rep (Suc m) n r = Seq r (Rep m (n - 1) r)"

type_synonym caps = "nat \<rightharpoonup> string"
type_synonym mstate = "string \<times> caps"

text \<open>
  \<open>ms inp r (s, g)\<close> lists, in the order in which a backtracking matcher tries them, the
  ways \<open>r\<close> can match at the front of the remaining input \<open>s\<close>: each way is the input
  left over, with the groups captured so far. A greedy quantifier tries the longer match
  first; an iteration of \<open>*\<close> that consumes nothing is not repeated. (The optional parts
  of the two patterns below consume at least one character when they match, so the
  same rule for \<open>?\<close> never applies and is not written out.) \<open>inp\<close> is the whole input,
  which \<open>^\<close> needs.
\<close>

function ms :: "string \<Rightarrow> regex \<Rightarrow> mstate \<Rightarrow> mstate list" where
  "ms inp (Atom c) (s, g) =
     (case s of [] \<Rightarrow> [] | x # xs \<Rightarrow> if cls_ok c x then [(xs, g)] else [])"
| "ms inp Eps (s, g) = [(s, g)]"
| "ms inp (Seq r1 r2) (s, g) = concat (map (ms inp r2) (ms inp r1 (s, g)))"
| "ms inp (Alt r1 r2) (s, g) = ms inp r1 (s, g) @ ms inp r2 (s, g)"
| "ms inp (Opt r) (s, g) = ms inp r (s, g) @ [(s, g)]"
| "ms inp (Star r) (s, g) =
     concat (map (\<lambda>st. if length (fst st) < length s then ms inp (Star r) st else [])
                 (ms inp r (s, g))) @ [(s, g)]"
| "ms inp (Grp n r) (s, g) =
     map (\<lambda>st. (fst st, (snd st)(n \<mapsto> take (length s - length (fst st)) s))) (ms inp r (s, g))"
| "ms inp Bol (s, g) = (if length s = length inp then [(s, g)] else [])"
| "ms inp Eol (s, g) = (if s = [] then [(s, g)] else [])"
  by pat_completeness auto
termination
  by (relation "measures [\<lambda>(inp, r, st). size r, \<lambda>(inp, r, st). length (fst st)]") auto

text \<open>
  \<open>std::regex_match\<close>: the first way, in that order, that consumes the whole input; the
  result holds the captured groups.
\<close>

definition regex_match :: "string \<Rightarrow> regex \<Rightarrow> caps option" where
  "regex_match inp r = map_option snd (find (\<lambda>st. fst st = []) (ms inp r (inp, Map.empty)))"

text \<open>A group that took no part in the match converts to the empty string.\<close>

definition sub_match :: "caps \<Rightarrow> nat \<Rightarrow> string" where
  "sub_match g n = (case g n of None \<Rightarrow> [] | Some w \<Rightarrow> w)"

text \<open>
  \<^verbatim>\<open>^(([^:/?#]+):)?(//([^/?#]*))?([^?#]*)(\?([^#]*))?(#(.*))?\<close>
\<close>

definition url_regex :: regex where
  "url_regex =
     Seq Bol
    (Seq (Opt (Grp 1 (Seq (Grp 2 (Plus (Atom (NoneOf '':/?#'')))) (Atom (Lit CHR '':'')))))
    (Seq (Opt (Grp 3 (Seq (Atom (Lit CHR ''/'')) (Seq (Atom (Lit CHR ''/''))
                        (Grp 4 (Star (Atom (NoneOf ''/?#''))))))))
    (Seq (Grp 5 (Star (Atom (NoneOf ''?#''))))
    (Seq (Opt (Grp 6 (Seq (Atom (Lit CHR ''?'')) (Grp 7 (Star (Atom (NoneOf ''#'')))))))
         (Opt (Grp 8 (Seq (Atom (Lit CHR ''#'')) (Grp 9 (Star (Atom AnyChar))))))))))"

text \<open>
  \<^verbatim>\<open>^(?:([^@:]*)(?::([^@]*))?@)?(\[[^]\]+\]|[^:]+)(?::(\d{1,5}))?$\<close>

  In the ECMAScript grammar \<^verbatim>\<open>[^]\<close> is a complete bracket expression, the negation of
  the empty class, so the first alternative of the host reads: an opening bracket, any one
  character, one or more closing brackets, a closing bracket.
\<close>

definition authority_regex :: regex where
  "authority_regex =
     Seq Bol
    (Seq (Opt (Seq (Grp 1 (Star (Atom (NoneOf ''@:''))))
              (Seq (Opt (Seq (Atom (Lit CHR '':'')) (Grp 2 (Star (Atom (NoneOf ''@''))))))
                   (Atom (Lit CHR ''@'')))))
    (Seq (Grp 3 (Alt (Seq (Atom (Lit CHR ''['')) (Seq (Atom (NoneOf []))
                        (Seq (Plus (Atom (Lit CHR '']''))) (Atom (Lit CHR '']'')))))
                     (Plus (Atom (NoneOf '':'')))))
    (Seq (Opt (Seq (Atom (Lit CHR '':'')) (Grp 4 (Rep 1 5 (Atom Digit)))))
         Eol)))"

section \<open>The URL value\<close>

datatype exn =
    URLParseError string
  | URLValidationError string
  | invalid_argument
  | out_of_range

text \<open>
  The fields of \<open>URLImpl\<close>. The last two are the cache for the parsed query parameters;
  the constructor leaves them empty.
\<close>

record URLImpl =
  scheme :: string
  host :: string
  port :: "16 word"
  path :: string
  query :: string
  fragment :: string
  query_params :: "string \<rightharpoonup> string"
  query_params_parsed :: bool

text \<open>Known schemes and their default ports.\<close>

definition default_ports :: "string \<rightharpoonup> 16 word" where
  "default_ports = [''http'' \<mapsto> 80, ''https'' \<mapsto> 443, ''ws'' \<mapsto> 80, ''wss'' \<mapsto> 443, ''ftp'' \<mapsto> 21]"

text \<open>
  \<open>std::stoi\<close> in base 10: leading white space, an optional sign, then digits; it throws
  \<open>std::invalid_argument\<close> when there is no digit and \<open>std::out_of_range\<close> when the value
  does not fit an \<open>int\<close>.
\<close>

definition stoi :: "string \<Rightarrow> exn + int" where
  "stoi str =
     (let s1 = dropWhile isspace str;
          neg = (s1 \<noteq> [] \<and> hd s1 = CHR ''-'');
          s2 = (if s1 \<noteq> [] \<and> (hd s1 = CHR ''-'' \<or> hd s1 = CHR ''+'') then tl s1 else s1);
          ds = takeWhile isdigit s2;
          v = int (foldl (\<lambda>a c. 10 * a + digit_val c) 0 ds);
          n = (if neg then - v else v)
      in if ds = [] then Inl invalid_argument
         else if n < - 2147483648 \<or> 2147483647 < n then Inl out_of_range
         else Inr n)"

text \<open>
  The body of the \<open>try\<close> block of the constructor: the assignment converts the \<open>int\<close> to
  the 16-bit field, and the comparison reads the field back.
\<close>

definition port_try :: "string \<Rightarrow> exn + 16 word" where
  "port_try port_str =
     (case stoi port_str of
        Inl e \<Rightarrow> Inl e
      | Inr n \<Rightarrow>
          (let p = (word_of_int n :: 16 word)
           in if uint p > 65535 then Inl (URLParseError ''Port number out of range'')
              else Inr p))"

text \<open>
  The authority block of the constructor (user:pass@host:port), entered when the authority
  is not empty: it gives the host and the port. The handler catches every
  \<open>std::exception\<close>, the \<open>URLParseError\<close> thrown inside the block among them.
\<close>

definition parse_authority :: "string \<Rightarrow> string \<Rightarrow> exn + (string \<times> 16 word)" where
  "parse_authority scheme0 authority =
     (case regex_match authority authority_regex of
        None \<Rightarrow> Inl (URLParseError ''Invalid authority component'')
      | Some auth_match \<Rightarrow>
          (let host0 = sub_match auth_match 3;
               port_str = sub_match auth_match 4
           in if port_str \<noteq> [] then
                (case port_try port_str of
                   Inl e \<Rightarrow> Inl (URLParseError ''Invalid port number'')
                 | Inr p \<Rightarrow> Inr (host0, p))
              else
                (case default_ports scheme0 of
                   Some d \<Rightarrow> Inr (host0, d)
                 | None \<Rightarrow> Inr (host0, 0))))"

definition URLImpl_ctor :: "string \<Rightarrow> exn + URLImpl" where
  "URLImpl_ctor url =
     (case regex_match url url_regex of
        None \<Rightarrow> Inl (URLParseError ''Invalid URL format'')
      | Some match \<Rightarrow>
          (let scheme0 = map tolower (sub_match match 2);
               authority = sub_match match 4;
               finish = (\<lambda>hp. \<lparr> scheme = scheme0, host = fst hp, port = snd hp,
                   path = (if length (sub_match match 5) \<noteq> 0 then sub_match match 5 else ''/''),
                   query = sub_match match 7,
                   fragment = sub_match match 9,
                   query_params = Map.empty,
                   query_params_parsed = False \<rparr>)
           in if authority \<noteq> [] then
                (case parse_authority scheme0 authority of
                   Inl e \<Rightarrow> Inl e
                 | Inr hp \<Rightarrow> Inr (finish hp))
              else Inr (finish ([], 0))))"

text \<open>
  \<open>URL::parse\<close> catches \<open>URLParseError\<close> only: any other exception of the constructor
  would leave it (\<open>Inl\<close>).
\<close>

definition parse :: "string \<Rightarrow> exn + URLImpl option" where
  "parse url =
     (case URLImpl_ctor url of
        Inr impl \<Rightarrow> Inr (Some impl)
      | Inl (URLParseError what) \<Rightarrow> Inr None
      | Inl e \<Rightarrow> Inl e)"

record ValidationResult =
  valid :: bool
  reason :: string

text \<open>
  \<open>URL::validate\<close>. The first statement of its \<open>try\<close> block,
  \<open>URLImpl impl(std::string(url));\<close>, is a declaration of a function \<open>impl\<close> that takes
  a \<open>std::string\<close> named \<open>url\<close> and returns a \<open>URLImpl\<close>: whatever can be read as a
  declaration is one, and \<open>std::string(url)\<close> is a parameter declaration with its name in
  parentheses. No object is constructed and the constructor does not run, so nothing is
  thrown inside the block, the handler for \<open>URLParseError\<close> is never entered, and the
  function goes on to \<open>return {true, ""}\<close>, whatever its argument.
\<close>

definition validate :: "string \<Rightarrow> exn + ValidationResult" where
  "validate url = Inr \<lparr> valid = True, reason = [] \<rparr>"

text \<open>
  The mutators work on the object in place: the model returns what the call gave (the
  exception, or nothing) together with the object as the call leaves it.
\<close>

definition set_scheme :: "string \<Rightarrow> URLImpl \<Rightarrow> (exn + unit) \<times> URLImpl" where
  "set_scheme name impl =
     (let scheme_str = map tolower name
      in if scheme_str = [] \<or> \<not> isalpha (hd scheme_str)
         then (Inl (URLValidationError ''Invalid scheme format''), impl)
         else (Inr (), impl\<lparr> scheme := scheme_str \<rparr>))"

definition set_port :: "16 word \<Rightarrow> URLImpl \<Rightarrow> (exn + unit) \<times> URLImpl" where
  "set_port p impl =
     (if p = 0 then (Inl (URLValidationError ''Port cannot be 0''), impl)
      else (Inr (), impl\<lparr> port := p \<rparr>))"

text \<open>The decimal digits of a number, as the stream prints an unsigned integer.\<close>

fun show_nat :: "nat \<Rightarrow> string" where
  "show_nat n = (if n < 10 then [char_of (48 + n)]
                 else show_nat (n div 10) @ [char_of (48 + n mod 10)])"

declare show_nat.simps [simp del]

definition to_string :: "URLImpl \<Rightarrow> string" where
  "to_string impl =
     (let ss0 = scheme impl @ ''://'';
          ss1 = ss0 @ host impl;
          ss2 = (if port impl \<noteq> 0 then
                   (case default_ports (scheme impl) of
                      None \<Rightarrow> ss1 @ '':'' @ show_nat (unat (port impl))
                    | Some d \<Rightarrow> if d \<noteq> port impl then ss1 @ '':'' @ show_nat (unat (port impl))
                                else ss1)
                 else ss1);
          ss3 = ss2 @ path impl;
          ss4 = (if query impl \<noteq> [] then ss3 @ ''?'' @ query impl else ss3);
          ss5 = (if fragment impl \<noteq> [] then ss4 @ ''#'' @ fragment impl else ss4)
      in ss5)"

definition is_secure :: "URLImpl \<Rightarrow> bool" where
  "is_secure impl = (scheme impl = ''https'' \<or> scheme impl = ''wss'')"

section \<open>Percent-decoding\<close>

text \<open>
  The extraction of an \<open>int\<close> in base 16 from the two characters put into the stream
  (\<open>ss << std::hex << encoded.substr(i + 1, 2); ss >> value\<close>), as what it stores into
  \<open>value\<close>. Leading white space is skipped, a sign is read, then the hexadecimal digits.
  When no digit is read the extraction fails and stores 0; a prefix \<open>0x\<close> with nothing
  after it gives 0 as well. When the two characters are both white space the stream is at
  its end after skipping them, the extraction stops before it stores anything, and
  \<open>value\<close>, which the source declares without an initial value, is left as it was:
  \<open>None\<close>.
\<close>

definition hex_extract :: "string \<Rightarrow> int option" where
  "hex_extract str =
     (let s1 = dropWhile isspace str;
          neg = (s1 \<noteq> [] \<and> hd s1 = CHR ''-'');
          s2 = (if s1 \<noteq> [] \<and> (hd s1 = CHR ''-'' \<or> hd s1 = CHR ''+'') then tl s1 else s1);
          ds = takeWhile isxdigit s2;
          v = int (foldl (\<lambda>a c. 16 * a + hex_val c) 0 ds)
      in if s1 = [] then None
         else if ds = [] then Some 0 else if neg then Some (- v) else Some v)"

text \<open>
  The loop of \<open>decode_uri_component\<close>. Where the extraction has stored nothing, the source
  converts the uninitialised \<open>value\<close> to a character, which is undefined behaviour: the
  result of the call is then \<open>None\<close>, and nothing is said about what the program does.
  Otherwise the result is \<open>Some\<close> of the decoded string.
\<close>

function decode_loop :: "string \<Rightarrow> nat \<Rightarrow> string \<Rightarrow> string option" where
  "decode_loop encoded i result =
     (if i < length encoded then
        (if encoded ! i = CHR ''%'' \<and> i + 2 < length encoded then
           (case hex_extract (take 2 (drop (i + 1) encoded)) of
              None \<Rightarrow> None
            | Some val \<Rightarrow> decode_loop encoded (i + 2 + 1) (result @ [char_of val]))
         else if encoded ! i = CHR ''+'' then
           decode_loop encoded (i + 1) (result @ '' '')
         else
           decode_loop encoded (i + 1) (result @ [encoded ! i]))
      else Some result)"
  by pat_completeness auto
termination
  by (relation "measure (\<lambda>(encoded, i, result). length encoded - i)") auto

declare decode_loop.simps [simp del]

definition decode_uri_component :: "string \<Rightarrow> string option" where
  "decode_uri_component encoded = decode_loop encoded 0 []"


section \<open>Views used by the proofs\<close>

text \<open>
  The five groups of the URL pattern that the constructor reads (scheme, authority, path,
  query, fragment), and the two groups of the authority pattern (host, port).
\<close>

definition url_parts :: "string \<Rightarrow> (string \<times> string \<times> string \<times> string \<times> string) option" where
  "url_parts url =
     map_option (\<lambda>m. (sub_match m 2, sub_match m 4, sub_match m 5, sub_match m 7, sub_match m 9))
       (regex_match url url_regex)"

definition authority_parts :: "string \<Rightarrow> (string \<times> string) option" where
  "authority_parts authority =
     map_option (\<lambda>m. (sub_match m 3, sub_match m 4)) (regex_match authority authority_regex)"

text \<open>
  The characters a pattern can consume, and the groups it can set.
\<close>

primrec eats :: "regex \<Rightarrow> char \<Rightarrow> bool" where
  "eats (Atom c) x = cls_ok c x"
| "eats Eps x = False"
| "eats (Seq r1 r2) x = (eats r1 x \<or> eats r2 x)"
| "eats (Alt r1 r2) x = (eats r1 x \<or> eats r2 x)"
| "eats (Opt r) x = eats r x"
| "eats (Star r) x = eats r x"
| "eats (Grp n r) x = eats r x"
| "eats Bol x = False"
| "eats Eol x = False"

primrec grps :: "regex \<Rightarrow> nat set" where
  "grps (Atom c) = {}"
| "grps Eps = {}"
| "grps (Seq r1 r2) = grps r1 \<union> grps r2"
| "grps (Alt r1 r2) = grps r1 \<union> grps r2"
| "grps (Opt r) = grps r"
| "grps (Star r) = grps r"
| "grps (Grp n r) = insert n (grps r)"
| "grps Bol = {}"
| "grps Eol = {}"

text \<open>\<open>leads xs v\<close>: the list starts with \<open>v\<close>, the way the matcher tries first.\<close>

definition leads :: "'a list \<Rightarrow> 'a \<Rightarrow> bool" where
  "leads xs v = (\<exists>rest. xs = v # rest)"

text \<open>The pieces of the URL pattern, one for each step of the matcher.\<close>

definition re_scheme :: regex where
  "re_scheme = Opt (Grp 1 (Seq (Grp 2 (Plus (Atom (NoneOf '':/?#'')))) (Atom (Lit CHR '':''))))"

definition re_authority :: regex where
  "re_authority = Opt (Grp 3 (Seq (Atom (Lit CHR ''/'')) (Seq (Atom (Lit CHR ''/''))
                        (Grp 4 (Star (Atom (NoneOf ''/?#'')))))))"

definition re_path :: regex where
  "re_path = Grp 5 (Star (Atom (NoneOf ''?#'')))"

definition re_query :: regex where
  "re_query = Opt (Grp 6 (Seq (Atom (Lit CHR ''?'')) (Grp 7 (Star (Atom (NoneOf ''#''))))))"

definition re_fragment :: regex where
  "re_fragment = Opt (Grp 8 (Seq (Atom (Lit CHR ''#'')) (Grp 9 (Star (Atom AnyChar)))))"

text \<open>The pieces of the authority pattern.\<close>

definition re_userinfo :: regex where
  "re_userinfo =
     Opt (Seq (Grp 1 (Star (Atom (NoneOf ''@:''))))
              (Seq (Opt (Seq (Atom (Lit CHR '':'')) (Grp 2 (Star (Atom (NoneOf ''@''))))))
                   (Atom (Lit CHR ''@''))))"

definition re_bracket_host :: regex where
  "re_bracket_host =
     Seq (Atom (Lit CHR ''['')) (Seq (Atom (NoneOf []))
         (Seq (Plus (Atom (Lit CHR '']''))) (Atom (Lit CHR '']''))))"

definition re_host :: regex where
  "re_host = Grp 3 (Alt re_bracket_host (Plus (Atom (NoneOf '':''))))"

definition re_port :: regex where
  "re_port = Opt (Seq (Atom (Lit CHR '':'')) (Grp 4 (Rep 1 5 (Atom Digit))))"

text \<open>
  What the greedy pieces of the URL pattern take from the front of a string, written with
  \<open>takeWhile\<close> and \<open>dropWhile\<close>: the captured text and the rest. \<open>frag_ok\<close> says that the
  rest is empty or is a fragment without a line terminator; \<open>url_split\<close> puts the steps
  together.
\<close>

definition split_scheme :: "string \<Rightarrow> string \<times> string" where
  "split_scheme s =
     (let w = takeWhile (cls_ok (NoneOf '':/?#'')) s;
          r = dropWhile (cls_ok (NoneOf '':/?#'')) s
      in if w \<noteq> [] \<and> r \<noteq> [] \<and> hd r = CHR '':'' then (w, tl r) else ([], s))"

definition split_authority :: "string \<Rightarrow> string \<times> string" where
  "split_authority s =
     (if take 2 s = ''//''
      then (takeWhile (cls_ok (NoneOf ''/?#'')) (drop 2 s),
            dropWhile (cls_ok (NoneOf ''/?#'')) (drop 2 s))
      else ([], s))"

definition split_path :: "string \<Rightarrow> string \<times> string" where
  "split_path s = (takeWhile (cls_ok (NoneOf ''?#'')) s, dropWhile (cls_ok (NoneOf ''?#'')) s)"

definition split_query :: "string \<Rightarrow> string \<times> string" where
  "split_query s =
     (if s \<noteq> [] \<and> hd s = CHR ''?''
      then (takeWhile (cls_ok (NoneOf ''#'')) (tl s), dropWhile (cls_ok (NoneOf ''#'')) (tl s))
      else ([], s))"

definition frag_ok :: "string \<Rightarrow> bool" where
  "frag_ok s = (s = [] \<or> (hd s = CHR ''#'' \<and> (\<forall>c \<in> set (tl s). cls_ok AnyChar c)))"

definition url_split :: "string \<Rightarrow> (string \<times> string \<times> string \<times> string \<times> string) option" where
  "url_split s =
     (let s1 = snd (split_scheme s);
          s2 = snd (split_authority s1);
          s3 = snd (split_path s2);
          s4 = snd (split_query s3)
      in if frag_ok s4
         then Some (fst (split_scheme s), fst (split_authority s1), fst (split_path s2),
                    fst (split_query s3), tl s4)
         else None)"

definition rest4 :: "string \<Rightarrow> string" where
  "rest4 s = snd (split_query (snd (split_path (snd (split_authority (snd (split_scheme s)))))))"

text \<open>
  The shapes of the authority: a host is a bracket, any character and two or more closing
  brackets, or a non-empty string without a colon; a port is one to five digits; the tail
  after the host is empty or a colon and a port.
\<close>

definition bracket_form :: "string \<Rightarrow> bool" where
  "bracket_form h =
     (case h of
        x # c # rest \<Rightarrow> x = CHR ''['' \<and> 2 \<le> length rest \<and> (\<forall>y \<in> set rest. y = CHR '']'')
      | _ \<Rightarrow> False)"

definition host_form :: "string \<Rightarrow> bool" where
  "host_form h = ((h \<noteq> [] \<and> CHR '':'' \<notin> set h) \<or> bracket_form h)"

definition port_form :: "string \<Rightarrow> bool" where
  "port_form p = (1 \<le> length p \<and> length p \<le> 5 \<and> (\<forall>c \<in> set p. isdigit c))"

definition tail_form :: "string \<Rightarrow> bool" where
  "tail_form t = (t = [] \<or> (hd t = CHR '':'' \<and> port_form (tl t)))"

text \<open>The number a string of decimal digits denotes.\<close>

definition dec_value :: "string \<Rightarrow> nat" where
  "dec_value ds = foldl (\<lambda>a c. 10 * a + digit_val c) 0 ds"

section \<open>Evaluation of characters\<close>

lemmas char_eval =
  isdigit_def isupper_def islower_def isalpha_def isspace_def isxdigit_def tolower_def
  digit_val_def hex_val_def char_of_def bit_Suc_0_iff

section \<open>The constructor, through the groups it reads\<close>

lemma parse_authority_parts:
  "parse_authority scheme0 authority =
     (case authority_parts authority of
        None \<Rightarrow> Inl (URLParseError ''Invalid authority component'')
      | Some (host0, port_str) \<Rightarrow>
          if port_str \<noteq> [] then
            (case port_try port_str of
               Inl e \<Rightarrow> Inl (URLParseError ''Invalid port number'')
             | Inr p \<Rightarrow> Inr (host0, p))
          else
            (case default_ports scheme0 of
               Some d \<Rightarrow> Inr (host0, d)
             | None \<Rightarrow> Inr (host0, 0)))"
  by (simp add: parse_authority_def authority_parts_def Let_def split: option.splits)

lemma URLImpl_ctor_parts:
  "URLImpl_ctor url =
     (case url_parts url of
        None \<Rightarrow> Inl (URLParseError ''Invalid URL format'')
      | Some (sch, authority, pth, qry, frg) \<Rightarrow>
          (case (if authority \<noteq> [] then parse_authority (map tolower sch) authority
                 else Inr ([], 0)) of
             Inl e \<Rightarrow> Inl e
           | Inr hp \<Rightarrow>
               Inr \<lparr> scheme = map tolower sch, host = fst hp, port = snd hp,
                     path = (if pth \<noteq> [] then pth else ''/''),
                     query = qry, fragment = frg,
                     query_params = Map.empty, query_params_parsed = False \<rparr>))"
  by (simp add: URLImpl_ctor_def url_parts_def Let_def split: option.splits)

lemma URLImpl_ctor_throws:
  "URLImpl_ctor url = Inl e \<Longrightarrow> \<exists>what. e = URLParseError what"
  by (auto simp add: URLImpl_ctor_def parse_authority_def Let_def
           split: option.splits sum.splits if_splits)

section \<open>Percent-decoding, one character at a time\<close>

lemma decode_loop_unfold_shift:
  "decode_loop (pre @ s) (length pre + i) res =
     (if i < length s then
        (if s ! i = CHR ''%'' \<and> i + 2 < length s then
           (case hex_extract (take 2 (drop (i + 1) s)) of
              None \<Rightarrow> None
            | Some val \<Rightarrow>
                decode_loop (pre @ s) (length pre + (i + 2 + 1)) (res @ [char_of val]))
         else if s ! i = CHR ''+'' then
           decode_loop (pre @ s) (length pre + (i + 1)) (res @ '' '')
         else
           decode_loop (pre @ s) (length pre + (i + 1)) (res @ [s ! i]))
      else Some res)"
  by (subst decode_loop.simps) (simp add: nth_append add.assoc cong: option.case_cong)

lemma decode_loop_shift: "decode_loop (pre @ s) (length pre + i) res = decode_loop s i res"
proof (induction s i res rule: decode_loop.induct)
  case (1 encoded i result)
  show ?case
    unfolding decode_loop_unfold_shift [of pre encoded i result]
      decode_loop.simps [of encoded i result]
    using 1 by (simp split: option.splits)
qed

lemma decode_loop_append:
  "decode_loop enc i (res @ res') = map_option ((@) res) (decode_loop enc i res')"
proof (induction enc i res' rule: decode_loop.induct)
  case (1 encoded i result)
  show ?case
    unfolding decode_loop.simps [of encoded i "res @ result"] decode_loop.simps [of encoded i result]
    using 1 by (simp del: append_assoc add: append_assoc [symmetric] split: option.splits)
qed

lemma decode_loop_drop:
  assumes "i \<le> length s"
  shows "decode_loop s i res = map_option ((@) res) (decode_loop (drop i s) 0 [])"
proof -
  have "decode_loop (take i s @ drop i s) (length (take i s) + 0) res = decode_loop (drop i s) 0 res"
    by (rule decode_loop_shift)
  then have "decode_loop s i res = decode_loop (drop i s) 0 res"
    using assms by simp
  then show ?thesis
    using decode_loop_append [of "drop i s" 0 res "[]"] by simp
qed

lemma decode_uri_component_Nil: "decode_uri_component [] = Some []"
  by (simp add: decode_uri_component_def decode_loop.simps)

lemma decode_uri_component_Cons:
  "decode_uri_component (c # cs) =
     (if c = CHR ''%'' \<and> 2 \<le> length cs
      then (case hex_extract (take 2 cs) of
              None \<Rightarrow> None
            | Some val \<Rightarrow> map_option ((#) (char_of val)) (decode_uri_component (drop 2 cs)))
      else if c = CHR ''+'' then map_option ((#) CHR '' '') (decode_uri_component cs)
      else map_option ((#) c) (decode_uri_component cs))"
proof -
  have step: "decode_loop (c # cs) 0 [] =
     (if c = CHR ''%'' \<and> 2 \<le> length cs
      then (case hex_extract (take 2 cs) of
              None \<Rightarrow> None
            | Some val \<Rightarrow> decode_loop (c # cs) 3 [char_of val])
      else if c = CHR ''+'' then decode_loop (c # cs) 1 '' ''
      else decode_loop (c # cs) 1 [c])"
    by (subst decode_loop.simps) (auto simp add: numeral_3_eq_3 cong: option.case_cong)
  have ap: "(@) [y] = (#) y" for y :: char
    by (rule ext) simp
  have d3: "2 \<le> length cs \<Longrightarrow>
      decode_loop (x # cs) 3 [y] = map_option ((#) y) (decode_loop (drop 2 cs) 0 [])" for x y
    using decode_loop_drop [of 3 "x # cs" "[y]"] by (simp add: numeral_3_eq_3 numeral_2_eq_2 ap)
  have d1: "decode_loop (x # cs) (Suc 0) [y] = map_option ((#) y) (decode_loop cs 0 [])" for x y
    using decode_loop_drop [of 1 "x # cs" "[y]"] by (simp add: ap)
  show ?thesis
    unfolding decode_uri_component_def step by (simp add: d3 d1 split: option.splits)
qed

lemma hex_extract_stores:
  "(hex_extract [a, b] = None) = (isspace a \<and> isspace b)"
  by (simp add: hex_extract_def Let_def)

lemma hex_extract_digits:
  assumes "isxdigit a" and "isxdigit b"
  shows "hex_extract [a, b] = Some (int (16 * hex_val a + hex_val b))"
proof -
  have na: "\<not> isspace a" "a \<noteq> CHR ''-''" "a \<noteq> CHR ''+''"
    using assms(1) by (auto simp add: isxdigit_def isdigit_def isspace_def)
  show ?thesis
    using assms na by (simp add: hex_extract_def Let_def)
qed

lemma decode_uri_component_defined:
  assumes "\<And>i. i + 2 < length s \<Longrightarrow> s ! i = CHR ''%'' \<Longrightarrow>
             \<not> (isspace (s ! (i + 1)) \<and> isspace (s ! (i + 2)))"
  shows "\<exists>r. decode_uri_component s = Some r"
  using assms
proof (induction "length s" arbitrary: s rule: less_induct)
  case less
  show ?case
  proof (cases s)
    case Nil
    then show ?thesis by (simp add: decode_uri_component_Nil)
  next
    case (Cons c cs)
    have tail: "\<exists>r. decode_uri_component cs = Some r"
    proof (rule less.hyps)
      show "length cs < length s" using Cons by simp
    next
      fix i
      assume "i + 2 < length cs" and "cs ! i = CHR ''%''"
      then show "\<not> (isspace (cs ! (i + 1)) \<and> isspace (cs ! (i + 2)))"
        using less.prems [of "Suc i"] Cons by simp
    qed
    show ?thesis
    proof (cases "c = CHR ''%'' \<and> 2 \<le> length cs")
      case False
      then show ?thesis using tail Cons by (auto simp add: decode_uri_component_Cons)
    next
      case True
      then obtain a b rest where cs: "cs = a # b # rest"
        by (cases cs; cases "tl cs") auto
      have "\<not> (isspace a \<and> isspace b)"
        using less.prems [of 0] Cons cs True by simp
      then obtain val where val: "hex_extract [a, b] = Some val"
        using hex_extract_stores [of a b] by auto
      have "\<exists>r. decode_uri_component rest = Some r"
      proof (rule less.hyps)
        show "length rest < length s" using Cons cs by simp
      next
        fix i
        assume "i + 2 < length rest" and "rest ! i = CHR ''%''"
        then show "\<not> (isspace (rest ! (i + 1)) \<and> isspace (rest ! (i + 2)))"
          using less.prems [of "Suc (Suc (Suc i))"] Cons cs by simp
      qed
      then show ?thesis
        using True Cons cs val by (auto simp add: decode_uri_component_Cons)
    qed
  qed
qed

section \<open>The matcher on the two patterns\<close>

lemma leads_map: "leads xs v \<Longrightarrow> leads (map f xs) (f v)"
  by (auto simp add: leads_def)

lemma leads_append: "leads xs v \<Longrightarrow> leads (xs @ ys) v"
  by (auto simp add: leads_def)

lemma leads_concat: "leads xs v \<Longrightarrow> leads (f v) w \<Longrightarrow> leads (concat (map f xs)) w"
  by (auto simp add: leads_def)

lemma leads_find: "leads xs v \<Longrightarrow> P v \<Longrightarrow> find P xs = Some v"
  by (auto simp add: leads_def)

lemma ms_Star_Atom_Cons:
  "ms inp (Star (Atom c)) (x # xs, g) =
     (if cls_ok c x then ms inp (Star (Atom c)) (xs, g) else []) @ [(x # xs, g)]"
  by simp

lemma leads_Star_Atom: "leads (ms inp (Star (Atom c)) (s, g)) (dropWhile (cls_ok c) s, g)"
proof (induction s)
  case Nil
  show ?case by (simp add: leads_def)
next
  case (Cons x xs)
  show ?case
  proof (cases "cls_ok c x")
    case True
    with Cons show ?thesis
      by (simp only: ms_Star_Atom_Cons if_True dropWhile.simps leads_append)
  next
    case False
    then show ?thesis
      by (simp only: ms_Star_Atom_Cons if_False dropWhile.simps append_Nil) (simp add: leads_def)
  qed
qed

lemma leads_Seq:
  "leads (ms inp r1 st) st1 \<Longrightarrow> leads (ms inp r2 st1) st2 \<Longrightarrow> leads (ms inp (Seq r1 r2) st) st2"
  by (cases st) (simp add: leads_concat)

lemma leads_Opt_take: "leads (ms inp r st) st1 \<Longrightarrow> leads (ms inp (Opt r) st) st1"
  by (cases st) (simp add: leads_append)

lemma leads_Opt_skip: "ms inp r st = [] \<Longrightarrow> leads (ms inp (Opt r) st) st"
  by (cases st) (simp add: leads_def)

lemma leads_Grp:
  "leads (ms inp r (s, g)) (s', g') \<Longrightarrow>
   leads (ms inp (Grp n r) (s, g)) (s', g'(n \<mapsto> take (length s - length s') s))"
  using leads_map [of "ms inp r (s, g)" "(s', g')"
      "\<lambda>st. (fst st, (snd st)(n \<mapsto> take (length s - length (fst st)) s))"]
  by simp

lemma leads_Atom: "cls_ok c x \<Longrightarrow> leads (ms inp (Atom c) (x # xs, g)) (xs, g)"
  by (simp add: leads_def)

lemma set_ms_Star_Atom:
  "set (ms inp (Star (Atom c)) (s, g)) =
     {(s', g) | s' w. s = w @ s' \<and> (\<forall>x \<in> set w. cls_ok c x)}"
proof (induction s)
  case Nil
  show ?case by auto
next
  case (Cons x xs)
  have "{(s', g) | s' w. x # xs = w @ s' \<and> (\<forall>y \<in> set w. cls_ok c y)}
      = (if cls_ok c x then {(s', g) | s' w. xs = w @ s' \<and> (\<forall>y \<in> set w. cls_ok c y)} else {})
        \<union> {(x # xs, g)}" (is "?L = ?R")
  proof (intro equalityI subsetI)
    fix st assume "st \<in> ?L"
    then obtain s' w where st: "st = (s', g)" and eq: "x # xs = w @ s'"
      and ok: "\<forall>y \<in> set w. cls_ok c y" by blast
    show "st \<in> ?R"
    proof (cases w)
      case Nil
      with eq st show ?thesis by simp
    next
      case (Cons y w')
      with eq ok have "y = x" "xs = w' @ s'" "cls_ok c x" "\<forall>y \<in> set w'. cls_ok c y" by auto
      with st show ?thesis by auto
    qed
  next
    fix st assume "st \<in> ?R"
    then consider (a) "cls_ok c x" "st \<in> {(s', g) | s' w. xs = w @ s' \<and> (\<forall>y \<in> set w. cls_ok c y)}"
      | (b) "st = (x # xs, g)" by (auto split: if_splits)
    then show "st \<in> ?L"
    proof cases
      case a
      then obtain s' w where "st = (s', g)" "xs = w @ s'" "\<forall>y \<in> set w. cls_ok c y" by blast
      then have "st = (s', g) \<and> x # xs = (x # w) @ s' \<and> (\<forall>y \<in> set (x # w). cls_ok c y)"
        using a(1) by simp
      then show ?thesis by blast
    next
      case b
      then have "st = (x # xs, g) \<and> x # xs = [] @ (x # xs) \<and> (\<forall>y \<in> set []. cls_ok c y)" by simp
      then show ?thesis by blast
    qed
  qed
  then show ?case
    using Cons by (simp only: ms_Star_Atom_Cons set_append) (simp split: if_splits)
qed

lemma ms_eats:
  "(s', g') \<in> set (ms inp r (s, g)) \<Longrightarrow> \<exists>w. s = w @ s' \<and> (\<forall>x \<in> set w. eats r x)"
proof (induction inp r "(s, g)" arbitrary: s g s' g' rule: ms.induct)
  case (1 inp c s g)
  then show ?case by (auto split: list.splits if_splits)
next
  case (2 inp s g)
  then show ?case by auto
next
  case (3 inp r1 r2 s g)
  from 3(3) obtain s1 g1 where a: "(s1, g1) \<in> set (ms inp r1 (s, g))"
    and b: "(s', g') \<in> set (ms inp r2 (s1, g1))" by auto
  from 3(1) [OF a] obtain w1 where w1: "s = w1 @ s1" "\<forall>x \<in> set w1. eats r1 x" by blast
  from 3(2) [OF a b] obtain w2 where w2: "s1 = w2 @ s'" "\<forall>x \<in> set w2. eats r2 x" by blast
  from w1 w2 have "s = (w1 @ w2) @ s' \<and> (\<forall>x \<in> set (w1 @ w2). eats (Seq r1 r2) x)" by auto
  then show ?case by blast
next
  case (4 inp r1 r2 s g)
  then show ?case by fastforce
next
  case (5 inp r s g)
  then show ?case by fastforce
next
  case (6 inp r s g)
  from 6(3) consider (stop) "(s', g') = (s, g)"
    | (go) s1 g1 where "(s1, g1) \<in> set (ms inp r (s, g))" "length s1 < length s"
        "(s', g') \<in> set (ms inp (Star r) (s1, g1))"
    by (auto split: if_splits)
  then show ?case
  proof cases
    case stop
    then show ?thesis by auto
  next
    case go
    from 6(1) [OF go(1)] obtain w1 where w1: "s = w1 @ s1" "\<forall>x \<in> set w1. eats r x" by blast
    have "\<exists>w. s1 = w @ s' \<and> (\<forall>x \<in> set w. eats (Star r) x)"
      using 6(2) go by fastforce
    then obtain w2 where w2: "s1 = w2 @ s'" "\<forall>x \<in> set w2. eats (Star r) x" by blast
    from w1 w2 have "s = (w1 @ w2) @ s' \<and> (\<forall>x \<in> set (w1 @ w2). eats (Star r) x)" by auto
    then show ?thesis by blast
  qed
next
  case (7 inp n r s g)
  then show ?case by fastforce
next
  case (8 inp s g)
  then show ?case by (auto split: if_splits)
next
  case (9 inp s g)
  then show ?case by (auto split: if_splits)
qed

lemma url_regex_stages:
  "url_regex = Seq Bol (Seq re_scheme (Seq re_authority (Seq re_path (Seq re_query re_fragment))))"
  by (simp add: url_regex_def re_scheme_def re_authority_def re_path_def re_query_def
        re_fragment_def)

lemma take_length_dropWhile: "take (length s - length (dropWhile P s)) s = takeWhile P s"
proof -
  have "length s = length (takeWhile P s) + length (dropWhile P s)"
    by (metis length_append takeWhile_dropWhile_id)
  then have "length s - length (dropWhile P s) = length (takeWhile P s)" by simp
  then show ?thesis
    by (metis append_eq_conv_conj takeWhile_dropWhile_id)
qed

lemma set_ms_Seq:
  "set (ms inp (Seq r1 r2) st) = (\<Union>st1 \<in> set (ms inp r1 st). set (ms inp r2 st1))"
  by (cases st) simp

lemma set_ms_Grp:
  "set (ms inp (Grp n r) (s, g)) =
     (\<lambda>st. (fst st, (snd st)(n \<mapsto> take (length s - length (fst st)) s))) ` set (ms inp r (s, g))"
  by simp

lemma set_ms_Atom:
  "set (ms inp (Atom c) (s, g)) = {(s', g) | s' x. s = x # s' \<and> cls_ok c x}"
  by (auto split: list.splits)

lemma set_ms_Opt: "set (ms inp (Opt r) st) = set (ms inp r st) \<union> {st}"
  by (cases st) simp

lemma set_ms_Alt: "set (ms inp (Alt r1 r2) st) = set (ms inp r1 st) \<union> set (ms inp r2 st)"
  by (cases st) simp

lemma ms_scheme_group_results:
  assumes "(s', g') \<in> set (ms inp (Grp 1 (Seq (Grp 2 (Plus (Atom (NoneOf '':/?#''))))
                                   (Atom (Lit CHR '':'')))) (s, g))"
  shows "takeWhile (cls_ok (NoneOf '':/?#'')) s \<noteq> []
       \<and> dropWhile (cls_ok (NoneOf '':/?#'')) s = CHR '':'' # s'"
proof -
  let ?P = "cls_ok (NoneOf '':/?#'')"
  from assms obtain s1 g1 where
    a: "(s1, g1) \<in> set (ms inp (Seq (Atom (NoneOf '':/?#'')) (Star (Atom (NoneOf '':/?#'')))) (s, g))"
    and b: "s1 = CHR '':'' # s'"
    by (auto simp add: set_ms_Seq set_ms_Grp set_ms_Atom Plus_def simp del: ms.simps)
  from a obtain x w where "s = x # w @ s1" "?P x" "\<forall>y \<in> set w. ?P y"
    by (auto simp add: set_ms_Seq set_ms_Atom set_ms_Star_Atom simp del: ms.simps)
  with b have s: "s = (x # w) @ CHR '':'' # s'" and ok: "\<forall>y \<in> set (x # w). ?P y" by auto
  have n: "\<not> ?P CHR '':''" by simp
  from s ok n have "takeWhile ?P s = x # w"
    by (simp only: takeWhile_append2 takeWhile.simps if_False append_Nil2)
  moreover from s ok n have "dropWhile ?P s = CHR '':'' # s'"
    by (simp only: dropWhile_append2 dropWhile.simps if_False)
  ultimately show ?thesis by simp
qed

lemma lead_scheme:
  assumes fresh: "g 2 = None"
  shows "\<exists>g'. leads (ms inp re_scheme (s, g)) (snd (split_scheme s), g')
        \<and> sub_match g' 2 = fst (split_scheme s)
        \<and> (\<forall>n. n \<noteq> 1 \<and> n \<noteq> 2 \<longrightarrow> g' n = g n)"
proof -
  let ?A = "NoneOf '':/?#''"
  let ?P = "cls_ok ?A"
  let ?w = "takeWhile ?P s" and ?r = "dropWhile ?P s"
  show ?thesis
  proof (cases "?w \<noteq> [] \<and> ?r \<noteq> [] \<and> hd ?r = CHR '':''")
    case True
    then obtain x xs where s: "s = x # xs" and px: "?P x"
      by (cases s) (auto split: if_splits)
    from True obtain t where r: "?r = CHR '':'' # t" by (cases ?r) auto
    have dr: "dropWhile ?P xs = ?r" using s px by simp
    have "leads (ms inp (Atom ?A) (s, g)) (xs, g)"
      unfolding s using px by (rule leads_Atom)
    moreover have "leads (ms inp (Star (Atom ?A)) (xs, g)) (?r, g)"
      using leads_Star_Atom [of inp ?A xs g] dr by simp
    ultimately have "leads (ms inp (Plus (Atom ?A)) (s, g)) (?r, g)"
      unfolding Plus_def by (rule leads_Seq)
    then have "leads (ms inp (Grp 2 (Plus (Atom ?A))) (s, g)) (?r, g(2 \<mapsto> ?w))"
      using leads_Grp [of inp "Plus (Atom ?A)" s g ?r g 2] by (simp only: take_length_dropWhile)
    moreover have "leads (ms inp (Atom (Lit CHR '':'')) (?r, g(2 \<mapsto> ?w))) (t, g(2 \<mapsto> ?w))"
      unfolding r by (rule leads_Atom) simp
    ultimately have "leads (ms inp (Seq (Grp 2 (Plus (Atom ?A))) (Atom (Lit CHR '':''))) (s, g))
        (t, g(2 \<mapsto> ?w))"
      by (rule leads_Seq)
    then have "leads (ms inp re_scheme (s, g))
        (t, (g(2 \<mapsto> ?w))(1 \<mapsto> take (length s - length t) s))"
      unfolding re_scheme_def by (intro leads_Opt_take leads_Grp)
    moreover have "split_scheme s = (?w, t)"
      using True r by (simp add: split_scheme_def)
    ultimately show ?thesis
      by (intro exI [of _ "(g(2 \<mapsto> ?w))(1 \<mapsto> take (length s - length t) s)"])
         (simp add: sub_match_def)
  next
    case False
    have "ms inp (Grp 1 (Seq (Grp 2 (Plus (Atom ?A))) (Atom (Lit CHR '':'')))) (s, g) = []"
    proof (rule ccontr)
      assume "\<not> ?thesis"
      then obtain st where "st \<in> set (ms inp (Grp 1 (Seq (Grp 2 (Plus (Atom ?A)))
          (Atom (Lit CHR '':'')))) (s, g))"
        using hd_in_set by blast
      then show False
        using ms_scheme_group_results [of "fst st" "snd st" inp s g] False by simp
    qed
    then have "leads (ms inp re_scheme (s, g)) (s, g)"
      unfolding re_scheme_def by (rule leads_Opt_skip)
    moreover have "split_scheme s = ([], s)"
      using False by (simp add: split_scheme_def Let_def)
    ultimately show ?thesis
      using fresh by (intro exI [of _ g]) (simp add: sub_match_def)
  qed
qed

lemma lead_authority:
  assumes fresh: "g 4 = None"
  shows "\<exists>g'. leads (ms inp re_authority (s, g)) (snd (split_authority s), g')
        \<and> sub_match g' 4 = fst (split_authority s)
        \<and> (\<forall>n. n \<noteq> 3 \<and> n \<noteq> 4 \<longrightarrow> g' n = g n)"
proof -
  let ?A = "NoneOf ''/?#''"
  let ?P = "cls_ok ?A"
  show ?thesis
  proof (cases "take 2 s = ''//''")
    case True
    then obtain t where s: "s = CHR ''/'' # CHR ''/'' # t"
      by (cases s; cases "tl s") auto
    let ?w = "takeWhile ?P t" and ?r = "dropWhile ?P t"
    have "leads (ms inp (Grp 4 (Star (Atom ?A))) (t, g)) (?r, g(4 \<mapsto> ?w))"
      using leads_Grp [OF leads_Star_Atom [of inp ?A t g], where n = 4] by (simp only: take_length_dropWhile)
    then have "leads (ms inp (Seq (Atom (Lit CHR ''/'')) (Grp 4 (Star (Atom ?A))))
        (CHR ''/'' # t, g)) (?r, g(4 \<mapsto> ?w))"
      by (intro leads_Seq [OF leads_Atom]) simp_all
    then have "leads (ms inp (Seq (Atom (Lit CHR ''/'')) (Seq (Atom (Lit CHR ''/''))
        (Grp 4 (Star (Atom ?A))))) (s, g)) (?r, g(4 \<mapsto> ?w))"
      unfolding s by (intro leads_Seq [OF leads_Atom]) simp_all
    then have "leads (ms inp re_authority (s, g))
        (?r, (g(4 \<mapsto> ?w))(3 \<mapsto> take (length s - length ?r) s))"
      unfolding re_authority_def by (intro leads_Opt_take leads_Grp)
    moreover have "split_authority s = (?w, ?r)"
      using s by (simp add: split_authority_def)
    ultimately show ?thesis
      by (intro exI [of _ "(g(4 \<mapsto> ?w))(3 \<mapsto> take (length s - length ?r) s)"])
         (simp add: sub_match_def)
  next
    case False
    have "ms inp (Grp 3 (Seq (Atom (Lit CHR ''/'')) (Seq (Atom (Lit CHR ''/''))
        (Grp 4 (Star (Atom ?A)))))) (s, g) = []"
    proof (rule ccontr)
      assume "\<not> ?thesis"
      then obtain st where "st \<in> set (ms inp (Grp 3 (Seq (Atom (Lit CHR ''/''))
          (Seq (Atom (Lit CHR ''/'')) (Grp 4 (Star (Atom ?A)))))) (s, g))"
        using hd_in_set by blast
      then obtain t where "s = CHR ''/'' # CHR ''/'' # t"
        by (auto simp add: set_ms_Seq set_ms_Grp set_ms_Atom simp del: ms.simps)
      with False show False by simp
    qed
    then have "leads (ms inp re_authority (s, g)) (s, g)"
      unfolding re_authority_def by (rule leads_Opt_skip)
    moreover have "split_authority s = ([], s)"
      using False by (simp add: split_authority_def)
    ultimately show ?thesis
      using fresh by (intro exI [of _ g]) (simp add: sub_match_def)
  qed
qed

lemma lead_path:
  "\<exists>g'. leads (ms inp re_path (s, g)) (snd (split_path s), g')
        \<and> sub_match g' 5 = fst (split_path s)
        \<and> (\<forall>n. n \<noteq> 5 \<longrightarrow> g' n = g n)"
proof -
  let ?A = "NoneOf ''?#''"
  have "leads (ms inp (Grp 5 (Star (Atom ?A))) (s, g))
      (dropWhile (cls_ok ?A) s, g(5 \<mapsto> takeWhile (cls_ok ?A) s))"
    using leads_Grp [OF leads_Star_Atom [of inp ?A s g], where n = 5] by (simp only: take_length_dropWhile)
  then show ?thesis
    by (intro exI [of _ "g(5 \<mapsto> takeWhile (cls_ok ?A) s)"])
       (simp add: sub_match_def re_path_def split_path_def)
qed

lemma lead_query:
  assumes fresh: "g 7 = None"
  shows "\<exists>g'. leads (ms inp re_query (s, g)) (snd (split_query s), g')
        \<and> sub_match g' 7 = fst (split_query s)
        \<and> (\<forall>n. n \<noteq> 6 \<and> n \<noteq> 7 \<longrightarrow> g' n = g n)"
proof -
  let ?A = "NoneOf ''#''"
  let ?P = "cls_ok ?A"
  show ?thesis
  proof (cases "s \<noteq> [] \<and> hd s = CHR ''?''")
    case True
    then obtain t where s: "s = CHR ''?'' # t" by (cases s) auto
    let ?w = "takeWhile ?P t" and ?r = "dropWhile ?P t"
    have "leads (ms inp (Grp 7 (Star (Atom ?A))) (t, g)) (?r, g(7 \<mapsto> ?w))"
      using leads_Grp [OF leads_Star_Atom [of inp ?A t g], where n = 7] by (simp only: take_length_dropWhile)
    then have "leads (ms inp (Seq (Atom (Lit CHR ''?'')) (Grp 7 (Star (Atom ?A)))) (s, g))
        (?r, g(7 \<mapsto> ?w))"
      unfolding s by (intro leads_Seq [OF leads_Atom]) simp_all
    then have "leads (ms inp re_query (s, g))
        (?r, (g(7 \<mapsto> ?w))(6 \<mapsto> take (length s - length ?r) s))"
      unfolding re_query_def by (intro leads_Opt_take leads_Grp)
    moreover have "split_query s = (?w, ?r)"
      using s by (simp add: split_query_def)
    ultimately show ?thesis
      by (intro exI [of _ "(g(7 \<mapsto> ?w))(6 \<mapsto> take (length s - length ?r) s)"])
         (simp add: sub_match_def)
  next
    case False
    have "ms inp (Grp 6 (Seq (Atom (Lit CHR ''?'')) (Grp 7 (Star (Atom ?A))))) (s, g) = []"
    proof (rule ccontr)
      assume "\<not> ?thesis"
      then obtain st where "st \<in> set (ms inp (Grp 6 (Seq (Atom (Lit CHR ''?''))
          (Grp 7 (Star (Atom ?A))))) (s, g))"
        using hd_in_set by blast
      then obtain t where "s = CHR ''?'' # t"
        by (auto simp add: set_ms_Seq set_ms_Grp set_ms_Atom simp del: ms.simps)
      with False show False by simp
    qed
    then have "leads (ms inp re_query (s, g)) (s, g)"
      unfolding re_query_def by (rule leads_Opt_skip)
    moreover have "split_query s = ([], s)"
      using False by (auto simp add: split_query_def)
    ultimately show ?thesis
      using fresh by (intro exI [of _ g]) (simp add: sub_match_def)
  qed
qed

lemma lead_fragment:
  assumes fresh: "g 9 = None" and ok: "frag_ok s"
  shows "\<exists>g'. leads (ms inp re_fragment (s, g)) ([], g')
        \<and> sub_match g' 9 = tl s
        \<and> (\<forall>n. n \<noteq> 8 \<and> n \<noteq> 9 \<longrightarrow> g' n = g n)"
proof (cases s)
  case Nil
  have "ms inp (Grp 8 (Seq (Atom (Lit CHR ''#'')) (Grp 9 (Star (Atom AnyChar))))) ([], g) = []"
    by simp
  then have "leads (ms inp re_fragment ([], g)) ([], g)"
    unfolding re_fragment_def by (rule leads_Opt_skip)
  then show ?thesis
    using fresh Nil by (intro exI [of _ g]) (simp add: sub_match_def)
next
  case (Cons x t)
  with ok have s: "s = CHR ''#'' # t" and t: "\<forall>c \<in> set t. cls_ok AnyChar c"
    by (simp_all add: frag_ok_def)
  from t have dw: "dropWhile (cls_ok AnyChar) t = []" and tw: "takeWhile (cls_ok AnyChar) t = t"
    by simp_all
  have "leads (ms inp (Grp 9 (Star (Atom AnyChar))) (t, g)) ([], g(9 \<mapsto> t))"
    using leads_Grp [OF leads_Star_Atom [of inp AnyChar t g], where n = 9]
    by (simp add: dw)
  then have "leads (ms inp (Seq (Atom (Lit CHR ''#'')) (Grp 9 (Star (Atom AnyChar)))) (s, g))
      ([], g(9 \<mapsto> t))"
    unfolding s by (intro leads_Seq [OF leads_Atom]) simp_all
  then have "leads (ms inp re_fragment (s, g))
      ([], (g(9 \<mapsto> t))(8 \<mapsto> take (length s - length ([]::string)) s))"
    unfolding re_fragment_def by (intro leads_Opt_take leads_Grp)
  then show ?thesis
    using s by (intro exI [of _ "(g(9 \<mapsto> t))(8 \<mapsto> take (length s - length ([]::string)) s)"])
       (simp add: sub_match_def)
qed

lemma first_hash_unique:
  assumes "s = w @ t" and "CHR ''#'' \<notin> set w" and "t = [] \<or> hd t = CHR ''#''"
  shows "t = dropWhile (\<lambda>c. c \<noteq> CHR ''#'') s"
proof -
  have "dropWhile (\<lambda>c. c \<noteq> CHR ''#'') (w @ t) = dropWhile (\<lambda>c. c \<noteq> CHR ''#'') t"
    using assms(2) by (intro dropWhile_append2) auto
  moreover have "dropWhile (\<lambda>c. c \<noteq> CHR ''#'') t = t"
    using assms(3) by (cases t) auto
  ultimately show ?thesis using assms(1) by simp
qed

lemma split_scheme_decomp:
  "\<exists>w. s = w @ snd (split_scheme s) \<and> CHR ''#'' \<notin> set w"
proof -
  let ?P = "cls_ok (NoneOf '':/?#'')"
  show ?thesis
  proof (cases "takeWhile ?P s \<noteq> [] \<and> dropWhile ?P s \<noteq> [] \<and> hd (dropWhile ?P s) = CHR '':''")
    case True
    then obtain t where r: "dropWhile ?P s = CHR '':'' # t" by (cases "dropWhile ?P s") auto
    have "s = takeWhile ?P s @ dropWhile ?P s" by simp
    with r have "s = (takeWhile ?P s @ '':'') @ t" by simp
    moreover have "CHR ''#'' \<notin> set (takeWhile ?P s @ '':'')"
      by (auto dest: set_takeWhileD)
    moreover have "snd (split_scheme s) = t"
      using True r by (simp add: split_scheme_def)
    ultimately show ?thesis by blast
  next
    case False
    then have "snd (split_scheme s) = s"
      by (simp only: split_scheme_def Let_def if_False snd_conv)
    then show ?thesis by (intro exI [of _ "[]"]) simp
  qed
qed

lemma split_authority_decomp:
  "\<exists>w. s = w @ snd (split_authority s) \<and> CHR ''#'' \<notin> set w"
proof -
  let ?P = "cls_ok (NoneOf ''/?#'')"
  show ?thesis
  proof (cases "take 2 s = ''//''")
    case True
    have "s = take 2 s @ takeWhile ?P (drop 2 s) @ dropWhile ?P (drop 2 s)" by simp
    with True have "s = (''//'' @ takeWhile ?P (drop 2 s)) @ dropWhile ?P (drop 2 s)" by simp
    moreover have "CHR ''#'' \<notin> set (''//'' @ takeWhile ?P (drop 2 s))"
      by (auto dest: set_takeWhileD)
    moreover have "snd (split_authority s) = dropWhile ?P (drop 2 s)"
      using True by (simp add: split_authority_def)
    ultimately show ?thesis by metis
  next
    case False
    then have "snd (split_authority s) = s" by (simp add: split_authority_def)
    then show ?thesis by (intro exI [of _ "[]"]) simp
  qed
qed

lemma split_path_decomp:
  "\<exists>w. s = w @ snd (split_path s) \<and> CHR ''#'' \<notin> set w
       \<and> (snd (split_path s) = [] \<or> hd (snd (split_path s)) = CHR ''?''
          \<or> hd (snd (split_path s)) = CHR ''#'')"
proof -
  let ?P = "cls_ok (NoneOf ''?#'')"
  have "s = takeWhile ?P s @ dropWhile ?P s" by simp
  moreover have "CHR ''#'' \<notin> set (takeWhile ?P s)"
    by (auto dest: set_takeWhileD)
  moreover have "dropWhile ?P s = [] \<or> hd (dropWhile ?P s) = CHR ''?''
      \<or> hd (dropWhile ?P s) = CHR ''#''"
    using hd_dropWhile [of ?P s] by auto
  ultimately show ?thesis
    unfolding split_path_def snd_conv by blast
qed

lemma split_query_decomp:
  assumes "s = [] \<or> hd s = CHR ''?'' \<or> hd s = CHR ''#''"
  shows "\<exists>w. s = w @ snd (split_query s) \<and> CHR ''#'' \<notin> set w
       \<and> (snd (split_query s) = [] \<or> hd (snd (split_query s)) = CHR ''#'')"
proof -
  let ?P = "cls_ok (NoneOf ''#'')"
  show ?thesis
  proof (cases "s \<noteq> [] \<and> hd s = CHR ''?''")
    case True
    then obtain t where s: "s = CHR ''?'' # t" by (cases s) auto
    have "t = takeWhile ?P t @ dropWhile ?P t" by simp
    with s have "s = (CHR ''?'' # takeWhile ?P t) @ dropWhile ?P t" by simp
    moreover have "CHR ''#'' \<notin> set (CHR ''?'' # takeWhile ?P t)"
      by (auto dest: set_takeWhileD)
    moreover have "dropWhile ?P t = [] \<or> hd (dropWhile ?P t) = CHR ''#''"
      using hd_dropWhile [of ?P t] by auto
    moreover have "snd (split_query s) = dropWhile ?P t"
      using s by (simp add: split_query_def)
    ultimately show ?thesis by metis
  next
    case False
    then have "snd (split_query s) = s" by (auto simp add: split_query_def)
    moreover from False assms have "s = [] \<or> hd s = CHR ''#''" by auto
    ultimately show ?thesis by (intro exI [of _ "[]"]) simp
  qed
qed

lemma rest4_first_hash: "rest4 s = dropWhile (\<lambda>c. c \<noteq> CHR ''#'') s"
proof -
  let ?s1 = "snd (split_scheme s)"
  let ?s2 = "snd (split_authority ?s1)"
  let ?s3 = "snd (split_path ?s2)"
  obtain w1 where w1: "s = w1 @ ?s1" "CHR ''#'' \<notin> set w1"
    using split_scheme_decomp by blast
  obtain w2 where w2: "?s1 = w2 @ ?s2" "CHR ''#'' \<notin> set w2"
    using split_authority_decomp by blast
  obtain w3 where w3: "?s2 = w3 @ ?s3" "CHR ''#'' \<notin> set w3"
    and h3: "?s3 = [] \<or> hd ?s3 = CHR ''?'' \<or> hd ?s3 = CHR ''#''"
    using split_path_decomp by blast
  obtain w4 where w4: "?s3 = w4 @ rest4 s" "CHR ''#'' \<notin> set w4"
    and h4: "rest4 s = [] \<or> hd (rest4 s) = CHR ''#''"
    using split_query_decomp [OF h3] unfolding rest4_def by blast
  have "s = (w1 @ w2 @ w3 @ w4) @ rest4 s"
    using w1(1) w2(1) w3(1) w4(1) by (metis append.assoc)
  moreover have "CHR ''#'' \<notin> set (w1 @ w2 @ w3 @ w4)"
    using w1(2) w2(2) w3(2) w4(2) by simp
  ultimately show ?thesis
    using h4 by (rule first_hash_unique)
qed

lemma ms_no_hash:
  assumes "st' \<in> set (ms inp r st)" and "\<And>x. eats r x \<Longrightarrow> x \<noteq> CHR ''#''"
  shows "\<exists>w. fst st = w @ fst st' \<and> CHR ''#'' \<notin> set w"
proof -
  from assms(1) have "(fst st', snd st') \<in> set (ms inp r (fst st, snd st))" by simp
  from ms_eats [OF this] obtain w where "fst st = w @ fst st'" "\<forall>x \<in> set w. eats r x" by blast
  with assms(2) show ?thesis by blast
qed

lemma url_regex_full_match_frag:
  assumes "([], g') \<in> set (ms inp url_regex (s, g))"
  shows "frag_ok (rest4 s)"
proof -
  from assms obtain st0 st1 st2 st3 st4 where
    m0: "st0 \<in> set (ms inp Bol (s, g))" and
    m1: "st1 \<in> set (ms inp re_scheme st0)" and
    m2: "st2 \<in> set (ms inp re_authority st1)" and
    m3: "st3 \<in> set (ms inp re_path st2)" and
    m4: "st4 \<in> set (ms inp re_query st3)" and
    m5: "([], g') \<in> set (ms inp re_fragment st4)"
    unfolding url_regex_stages set_ms_Seq by blast
  obtain w0 where w0: "fst (s, g) = w0 @ fst st0" "CHR ''#'' \<notin> set w0"
    using ms_no_hash [OF m0] by auto
  obtain w1 where w1: "fst st0 = w1 @ fst st1" "CHR ''#'' \<notin> set w1"
    using ms_no_hash [OF m1] by (auto simp add: re_scheme_def Plus_def)
  obtain w2 where w2: "fst st1 = w2 @ fst st2" "CHR ''#'' \<notin> set w2"
    using ms_no_hash [OF m2] by (auto simp add: re_authority_def)
  obtain w3 where w3: "fst st2 = w3 @ fst st3" "CHR ''#'' \<notin> set w3"
    using ms_no_hash [OF m3] by (auto simp add: re_path_def)
  obtain w4 where w4: "fst st3 = w4 @ fst st4" "CHR ''#'' \<notin> set w4"
    using ms_no_hash [OF m4] by (auto simp add: re_query_def)
  have s: "s = (w0 @ w1 @ w2 @ w3 @ w4) @ fst st4"
    using w0(1) w1(1) w2(1) w3(1) w4(1) by simp
  have nh: "CHR ''#'' \<notin> set (w0 @ w1 @ w2 @ w3 @ w4)"
    using w0(2) w1(2) w2(2) w3(2) w4(2) by simp
  obtain s4 g4 where st4: "st4 = (s4, g4)" by (cases st4)
  from m5 have "frag_ok s4"
    unfolding re_fragment_def st4
    by (auto simp add: frag_ok_def set_ms_Opt set_ms_Seq set_ms_Grp set_ms_Atom set_ms_Star_Atom
          simp del: ms.simps) blast+
  then have ok: "frag_ok (fst st4)" by (simp add: st4)
  then have "fst st4 = [] \<or> hd (fst st4) = CHR ''#''" by (auto simp add: frag_ok_def)
  from first_hash_unique [OF s nh this] have "fst st4 = rest4 s"
    by (simp add: rest4_first_hash)
  with ok show ?thesis by simp
qed

lemma url_regex_leads:
  assumes ok: "frag_ok (rest4 s)"
  shows "\<exists>g. leads (ms s url_regex (s, Map.empty)) ([], g)
        \<and> sub_match g 2 = fst (split_scheme s)
        \<and> sub_match g 4 = fst (split_authority (snd (split_scheme s)))
        \<and> sub_match g 5 = fst (split_path (snd (split_authority (snd (split_scheme s)))))
        \<and> sub_match g 7 = fst (split_query (snd (split_path (snd (split_authority
              (snd (split_scheme s)))))))
        \<and> sub_match g 9 = tl (rest4 s)"
proof -
  let ?s1 = "snd (split_scheme s)"
  let ?s2 = "snd (split_authority ?s1)"
  let ?s3 = "snd (split_path ?s2)"
  let ?s4 = "snd (split_query ?s3)"
  have l0: "leads (ms s Bol (s, Map.empty)) (s, Map.empty)" by (simp add: leads_def)
  obtain g1 where l1: "leads (ms s re_scheme (s, Map.empty)) (?s1, g1)"
    and c1: "sub_match g1 2 = fst (split_scheme s)"
    and f1: "\<forall>n. n \<noteq> 1 \<and> n \<noteq> 2 \<longrightarrow> g1 n = Map.empty n"
    using lead_scheme [where g = Map.empty and inp = s and s = s] by auto
  have "g1 4 = None" using f1 by simp
  from lead_authority [where g = g1 and inp = s and s = ?s1] this
  obtain g2 where l2: "leads (ms s re_authority (?s1, g1)) (?s2, g2)"
    and c2: "sub_match g2 4 = fst (split_authority ?s1)"
    and f2: "\<forall>n. n \<noteq> 3 \<and> n \<noteq> 4 \<longrightarrow> g2 n = g1 n"
    by auto
  from lead_path [of s ?s2 g2]
  obtain g3 where l3: "leads (ms s re_path (?s2, g2)) (?s3, g3)"
    and c3: "sub_match g3 5 = fst (split_path ?s2)"
    and f3: "\<forall>n. n \<noteq> 5 \<longrightarrow> g3 n = g2 n"
    by auto
  have "g3 7 = None" using f1 f2 f3 by simp
  from lead_query [where g = g3 and inp = s and s = ?s3] this
  obtain g4 where l4: "leads (ms s re_query (?s3, g3)) (?s4, g4)"
    and c4: "sub_match g4 7 = fst (split_query ?s3)"
    and f4: "\<forall>n. n \<noteq> 6 \<and> n \<noteq> 7 \<longrightarrow> g4 n = g3 n"
    by auto
  have "g4 9 = None" using f1 f2 f3 f4 by simp
  from lead_fragment [where g = g4 and inp = s and s = ?s4] this ok
  obtain g5 where l5: "leads (ms s re_fragment (?s4, g4)) ([], g5)"
    and c5: "sub_match g5 9 = tl ?s4"
    and f5: "\<forall>n. n \<noteq> 8 \<and> n \<noteq> 9 \<longrightarrow> g5 n = g4 n"
    unfolding rest4_def by auto
  have "leads (ms s url_regex (s, Map.empty)) ([], g5)"
    unfolding url_regex_stages
    by (intro leads_Seq [OF l0] leads_Seq [OF l1] leads_Seq [OF l2] leads_Seq [OF l3]
          leads_Seq [OF l4] l5)
  moreover have "sub_match g5 2 = sub_match g1 2" "sub_match g5 4 = sub_match g2 4"
    "sub_match g5 5 = sub_match g3 5" "sub_match g5 7 = sub_match g4 7"
    using f2 f3 f4 f5 by (simp_all add: sub_match_def)
  ultimately show ?thesis
    using c1 c2 c3 c4 c5 unfolding rest4_def by (intro exI [of _ g5]) simp
qed

lemma url_parts_eq: "url_parts s = url_split s"
proof (cases "frag_ok (rest4 s)")
  case True
  from url_regex_leads [OF True] obtain g where
    l: "leads (ms s url_regex (s, Map.empty)) ([], g)"
    and c: "sub_match g 2 = fst (split_scheme s)"
      "sub_match g 4 = fst (split_authority (snd (split_scheme s)))"
      "sub_match g 5 = fst (split_path (snd (split_authority (snd (split_scheme s)))))"
      "sub_match g 7 = fst (split_query (snd (split_path (snd (split_authority
              (snd (split_scheme s)))))))"
      "sub_match g 9 = tl (rest4 s)"
    by blast
  from l have "find (\<lambda>st. fst st = []) (ms s url_regex (s, Map.empty)) = Some ([], g)"
    by (rule leads_find) simp
  then have "regex_match s url_regex = Some g" by (simp add: regex_match_def)
  then show ?thesis
    using True c by (simp add: url_parts_def url_split_def rest4_def Let_def)
next
  case False
  have "find (\<lambda>st. fst st = []) (ms s url_regex (s, Map.empty)) = None"
  proof (rule ccontr)
    assume "\<not> ?thesis"
    then obtain st where "find (\<lambda>st. fst st = []) (ms s url_regex (s, Map.empty)) = Some st"
      by auto
    then have "st \<in> set (ms s url_regex (s, Map.empty))" "fst st = []"
      by (auto simp add: find_Some_iff)
    then have "([], snd st) \<in> set (ms s url_regex (s, Map.empty))"
      by (metis prod.collapse)
    from url_regex_full_match_frag [OF this] False show False by simp
  qed
  then have "regex_match s url_regex = None" by (simp add: regex_match_def)
  then show ?thesis
    using False by (simp add: url_parts_def url_split_def rest4_def Let_def)
qed

lemma authority_regex_stages:
  "authority_regex = Seq Bol (Seq re_userinfo (Seq re_host (Seq re_port Eol)))"
  by (simp add: authority_regex_def re_userinfo_def re_host_def re_bracket_host_def re_port_def)

lemma ms_frame:
  "(s', g') \<in> set (ms inp r (s, g)) \<Longrightarrow> n \<notin> grps r \<Longrightarrow> g' n = g n"
proof (induction inp r "(s, g)" arbitrary: s g s' g' rule: ms.induct)
  case (1 inp c s g)
  then show ?case by (auto split: list.splits if_splits)
next
  case (2 inp s g)
  then show ?case by auto
next
  case (3 inp r1 r2 s g)
  from 3(3) obtain s1 g1 where a: "(s1, g1) \<in> set (ms inp r1 (s, g))"
    and b: "(s', g') \<in> set (ms inp r2 (s1, g1))" by auto
  from 3(1) [OF a] 3(4) have "g1 n = g n" by simp
  moreover from 3(2) [OF a b] 3(4) have "g' n = g1 n" by simp
  ultimately show ?case by simp
next
  case (4 inp r1 r2 s g)
  then show ?case by fastforce
next
  case (5 inp r s g)
  then show ?case by fastforce
next
  case (6 inp r s g)
  from 6(3) consider (stop) "(s', g') = (s, g)"
    | (go) s1 g1 where "(s1, g1) \<in> set (ms inp r (s, g))" "length s1 < length s"
        "(s', g') \<in> set (ms inp (Star r) (s1, g1))"
    by (auto split: if_splits)
  then show ?case
  proof cases
    case stop
    then show ?thesis by auto
  next
    case go
    from 6(1) [OF go(1)] 6(4) have "g1 n = g n" by simp
    moreover have "g' n = g1 n"
      using 6(2) 6(4) go by fastforce
    ultimately show ?thesis by simp
  qed
next
  case (7 inp m r s g)
  then show ?case by fastforce
next
  case (8 inp s g)
  then show ?case by (auto split: if_splits)
next
  case (9 inp s g)
  then show ?case by (auto split: if_splits)
qed

lemma set_ms_Rep0_Atom:
  "set (ms inp (Rep 0 n (Atom c)) (s, g)) =
     {(s', g) | s' w. s = w @ s' \<and> length w \<le> n \<and> (\<forall>x \<in> set w. cls_ok c x)}"
proof (induction n arbitrary: s)
  case 0
  show ?case by auto
next
  case (Suc n)
  show ?case (is "?L = ?R")
  proof (intro equalityI subsetI)
    fix st assume "st \<in> ?L"
    then consider (skip) "st = (s, g)"
      | (take) x xs where "s = x # xs" "cls_ok c x" "st \<in> set (ms inp (Rep 0 n (Atom c)) (xs, g))"
      by (auto simp add: set_ms_Atom split: list.splits if_splits simp del: ms.simps(1))
    then show "st \<in> ?R"
    proof cases
      case skip
      then have "st = (s, g) \<and> s = [] @ s \<and> length ([]::string) \<le> Suc n
          \<and> (\<forall>x \<in> set []. cls_ok c x)" by simp
      then show ?thesis by blast
    next
      case take
      from take(3) obtain s' w where "st = (s', g)" "xs = w @ s'" "length w \<le> n"
        "\<forall>y \<in> set w. cls_ok c y" unfolding Suc.IH by blast
      with take(1,2) have "st = (s', g) \<and> s = (x # w) @ s' \<and> length (x # w) \<le> Suc n
          \<and> (\<forall>y \<in> set (x # w). cls_ok c y)" by simp
      then show ?thesis by blast
    qed
  next
    fix st assume "st \<in> ?R"
    then obtain s' w where st: "st = (s', g)" and s: "s = w @ s'" and len: "length w \<le> Suc n"
      and ok: "\<forall>x \<in> set w. cls_ok c x" by blast
    show "st \<in> ?L"
    proof (cases w)
      case Nil
      with st s show ?thesis by simp
    next
      case (Cons x w')
      have "length w' \<le> n" "\<forall>x \<in> set w'. cls_ok c x"
        using Cons len ok by simp_all
      then have "(s', g) \<in> set (ms inp (Rep 0 n (Atom c)) (w' @ s', g))"
        unfolding Suc.IH by blast
      with Cons s ok st show ?thesis by simp
    qed
  qed
qed

lemma Rep_1_5: "Rep 1 5 r = Seq r (Rep 0 4 r)"
  using Rep.simps(3) [of 0 5 r] by simp

lemma in_ms_Grp:
  assumes "st \<in> set (ms inp (Grp n r) (s, g))"
  shows "\<exists>s' g0. (s', g0) \<in> set (ms inp r (s, g))
           \<and> st = (s', g0(n \<mapsto> take (length s - length s') s))"
  using assms by auto

lemma in_ms_Atom:
  assumes "st \<in> set (ms inp (Atom c) (s, g))"
  shows "\<exists>x. s = x # fst st \<and> cls_ok c x \<and> snd st = g"
  using assms by (auto split: list.splits if_splits)

lemma userinfo_results:
  assumes "st1 \<in> set (ms inp re_userinfo (a, g))"
  shows "st1 = (a, g) \<or> CHR ''@'' \<in> set a"
proof (cases "st1 = (a, g)")
  case True
  then show ?thesis by simp
next
  case False
  with assms obtain sa sb where
    ma: "sa \<in> set (ms inp (Grp 1 (Star (Atom (NoneOf ''@:'')))) (a, g))" and
    mb: "sb \<in> set (ms inp (Opt (Seq (Atom (Lit CHR '':'')) (Grp 2 (Star (Atom (NoneOf ''@'')))))) sa)" and
    mc: "st1 \<in> set (ms inp (Atom (Lit CHR ''@'')) sb)"
    unfolding re_userinfo_def set_ms_Opt set_ms_Seq by blast
  from ma have "(fst sa, snd sa) \<in> set (ms inp (Grp 1 (Star (Atom (NoneOf ''@:'')))) (a, g))"
    by simp
  from ms_eats [OF this] obtain w1 where w1: "a = w1 @ fst sa" by blast
  from mb have "(fst sb, snd sb) \<in> set (ms inp (Opt (Seq (Atom (Lit CHR '':''))
      (Grp 2 (Star (Atom (NoneOf ''@'')))))) (fst sa, snd sa))" by simp
  from ms_eats [OF this] obtain w2 where w2: "fst sa = w2 @ fst sb" by blast
  from mc have "st1 \<in> set (ms inp (Atom (Lit CHR ''@'')) (fst sb, snd sb))" by simp
  then obtain s' where "fst sb = CHR ''@'' # s'"
    unfolding set_ms_Atom by auto
  with w1 w2 show ?thesis by simp
qed

lemma bracket_host_results:
  assumes "(s', g') \<in> set (ms inp re_bracket_host (s, g))"
  shows "\<exists>h. s = h @ s' \<and> bracket_form h \<and> g' = g"
proof -
  from assms obtain c w where "s = CHR ''['' # c # CHR '']'' # w @ CHR '']'' # s'"
    and "\<forall>y \<in> set w. y = CHR '']''" and "g' = g"
    unfolding re_bracket_host_def Plus_def
    by (auto simp add: set_ms_Seq set_ms_Atom set_ms_Star_Atom simp del: ms.simps)
  then have "s = (CHR ''['' # c # CHR '']'' # w @ '']'') @ s'
      \<and> bracket_form (CHR ''['' # c # CHR '']'' # w @ '']'') \<and> g' = g"
    by (simp add: bracket_form_def)
  then show ?thesis by blast
qed

lemma plain_host_results:
  assumes "(s', g') \<in> set (ms inp (Plus (Atom (NoneOf '':''))) (s, g))"
  shows "\<exists>h. s = h @ s' \<and> h \<noteq> [] \<and> CHR '':'' \<notin> set h \<and> g' = g"
proof -
  from assms obtain x w where "s = x # w @ s'" and "x \<noteq> CHR '':''"
    and "\<forall>y \<in> set w. y \<noteq> CHR '':''" and "g' = g"
    unfolding Plus_def
    by (auto simp add: set_ms_Seq set_ms_Atom set_ms_Star_Atom simp del: ms.simps)
  then have "s = (x # w) @ s' \<and> x # w \<noteq> [] \<and> CHR '':'' \<notin> set (x # w) \<and> g' = g"
    by auto
  then show ?thesis by blast
qed

lemma host_results:
  assumes "st2 \<in> set (ms inp re_host (s, g))"
  shows "\<exists>h. s = h @ fst st2 \<and> host_form h \<and> snd st2 = g(3 \<mapsto> h)"
proof -
  from in_ms_Grp [OF assms [unfolded re_host_def]] obtain s' g0 where
    m: "(s', g0) \<in> set (ms inp (Alt re_bracket_host (Plus (Atom (NoneOf '':'')))) (s, g))"
    and st2: "st2 = (s', g0(3 \<mapsto> take (length s - length s') s))"
    by blast
  from m have "\<exists>h. s = h @ s' \<and> host_form h \<and> g0 = g"
    unfolding set_ms_Alt host_form_def
    using bracket_host_results plain_host_results by blast
  then obtain h where h: "s = h @ s'" "host_form h" "g0 = g" by blast
  then have "take (length s - length s') s = h" by simp
  with h st2 show ?thesis by simp
qed

lemma port_results:
  assumes "st3 \<in> set (ms inp re_port (s, g))"
  shows "st3 = (s, g) \<or> (\<exists>p. s = CHR '':'' # p @ fst st3 \<and> port_form p \<and> snd st3 = g(4 \<mapsto> p))"
proof (cases "st3 = (s, g)")
  case True
  then show ?thesis by simp
next
  case False
  with assms obtain sa where
    ma: "sa \<in> set (ms inp (Atom (Lit CHR '':'')) (s, g))" and
    mb: "st3 \<in> set (ms inp (Grp 4 (Seq (Atom Digit) (Rep 0 4 (Atom Digit)))) sa)"
    unfolding re_port_def Rep_1_5 set_ms_Opt set_ms_Seq by blast
  from in_ms_Atom [OF ma] obtain t where s: "s = CHR '':'' # t" and sa: "sa = (t, g)"
    by (cases sa) auto
  from in_ms_Grp [OF mb [unfolded sa]] obtain s' g0 where
    m: "(s', g0) \<in> set (ms inp (Seq (Atom Digit) (Rep 0 4 (Atom Digit))) (t, g))"
    and st3: "st3 = (s', g0(4 \<mapsto> take (length t - length s') t))"
    by blast
  from m obtain sb where
    mc: "sb \<in> set (ms inp (Atom Digit) (t, g))" and
    md: "(s', g0) \<in> set (ms inp (Rep 0 4 (Atom Digit)) sb)"
    unfolding set_ms_Seq by blast
  from in_ms_Atom [OF mc] obtain x t' where t: "t = x # t'" "isdigit x" and sb: "sb = (t', g)"
    by (cases sb) auto
  from md obtain w where "t' = w @ s'" "length w \<le> 4" "\<forall>y \<in> set w. isdigit y" "g0 = g"
    unfolding sb set_ms_Rep0_Atom by auto
  with t have "t = x # w @ s'" "isdigit x" "length w \<le> 4"
    "\<forall>y \<in> set w. isdigit y" "g0 = g"
    by simp_all
  then have "t = (x # w) @ s'" "port_form (x # w)" "g0 = g"
    by (simp_all add: port_form_def)
  moreover from this have "take (length t - length s') t = x # w" by simp
  ultimately show ?thesis using s st3 by auto
qed

lemma authority_full_match:
  assumes "([], g') \<in> set (ms inp authority_regex (a, Map.empty))"
  shows "\<exists>u h t. a = u @ h @ t \<and> (u = [] \<or> CHR ''@'' \<in> set a) \<and> host_form h
           \<and> sub_match g' 3 = h
           \<and> ((t = [] \<and> sub_match g' 4 = [])
               \<or> (\<exists>p. t = CHR '':'' # p \<and> port_form p \<and> sub_match g' 4 = p))"
proof -
  from assms obtain st0 st1 st2 st3 where
    m0: "st0 \<in> set (ms inp Bol (a, Map.empty))" and
    m1: "st1 \<in> set (ms inp re_userinfo st0)" and
    m2: "st2 \<in> set (ms inp re_host st1)" and
    m3: "st3 \<in> set (ms inp re_port st2)" and
    m4: "([], g') \<in> set (ms inp Eol st3)"
    unfolding authority_regex_stages set_ms_Seq by blast
  from m0 have st0: "st0 = (a, Map.empty)" by (auto split: if_splits)
  from m4 have st3: "st3 = ([], g')" by (cases st3) (auto split: if_splits)
  obtain s1 g1 where st1: "st1 = (s1, g1)" by (cases st1)
  obtain s2 g2 where st2: "st2 = (s2, g2)" by (cases st2)
  from m1 have u: "st1 = (a, Map.empty) \<or> CHR ''@'' \<in> set a"
    unfolding st0 by (rule userinfo_results)
  from m1 obtain w where w: "a = w @ s1"
    unfolding st0 st1 using ms_eats by blast
  from m1 have f1: "g1 3 = None" "g1 4 = None"
    unfolding st0 st1 using ms_frame [of s1 g1 inp re_userinfo a Map.empty]
    by (simp_all add: re_userinfo_def)
  from host_results [OF m2 [unfolded st1]] obtain h where
    h: "s1 = h @ s2" "host_form h" "g2 = g1(3 \<mapsto> h)"
    unfolding st2 by auto
  from port_results [OF m3 [unfolded st2]]
  have "(s2 = [] \<and> g' = g2) \<or> (\<exists>p. s2 = CHR '':'' # p \<and> port_form p \<and> g' = g2(4 \<mapsto> p))"
    unfolding st3 by auto
  then have "sub_match g' 3 = h
      \<and> ((s2 = [] \<and> sub_match g' 4 = [])
          \<or> (\<exists>p. s2 = CHR '':'' # p \<and> port_form p \<and> sub_match g' 4 = p))"
    using h(3) f1 by (auto simp add: sub_match_def)
  moreover have "a = w @ h @ s2" using w h(1) by simp
  moreover have "w = [] \<or> CHR ''@'' \<in> set a"
    using u w unfolding st1 by auto
  ultimately show ?thesis using h(2) by blast
qed

lemma bracket_form_last:
  assumes "bracket_form h"
  shows "h \<noteq> [] \<and> last h = CHR '']''"
proof -
  from assms obtain x c rest where h: "h = x # c # rest" and len: "2 \<le> length rest"
    and all: "\<forall>y \<in> set rest. y = CHR '']''"
    by (auto simp add: bracket_form_def split: list.splits)
  from len have ne: "rest \<noteq> []" by auto
  then have "last rest \<in> set rest" by simp
  with all have "last rest = CHR '']''" by blast
  with h ne show ?thesis by simp
qed

lemma host_not_before_port:
  assumes "host_form h'" and "h' = h @ CHR '':'' # d" and "\<forall>c \<in> set d. isdigit c"
  shows False
proof -
  from assms(2) have "CHR '':'' \<in> set h'" by simp
  with assms(1) have "bracket_form h'" by (auto simp add: host_form_def)
  then have l: "last h' = CHR '']''" using bracket_form_last by blast
  have "last h' = (if d = [] then CHR '':'' else last d)"
    using assms(2) by simp
  show False
  proof (cases "d = []")
    case True
    with l \<open>last h' = (if d = [] then CHR '':'' else last d)\<close> show False by simp
  next
    case False
    then have "last d \<in> set d" by simp
    with assms(3) have "isdigit (last d)" by blast
    moreover from False l \<open>last h' = (if d = [] then CHR '':'' else last d)\<close>
    have "last d = CHR '']''" by simp
    ultimately show False by (simp add: isdigit_def)
  qed
qed

lemma host_port_unique_le:
  assumes eq: "h @ t = h' @ t'" and hf: "host_form h'" and tf: "tail_form t"
    and le: "length h \<le> length h'"
  shows "h = h' \<and> t = t'"
proof -
  from eq le obtain d where d: "h' = h @ d" "t = d @ t'"
    by (auto simp add: append_eq_append_conv2)
  show ?thesis
  proof (cases "d = []")
    case True
    with d show ?thesis by simp
  next
    case False
    with d(2) have "t \<noteq> []" by simp
    with tf have t: "hd t = CHR '':''" "\<forall>c \<in> set (tl t). isdigit c"
      by (auto simp add: tail_form_def port_form_def)
    from False d(2) have "hd d = CHR '':''" "set (tl d) \<subseteq> set (tl t)"
      using t(1) by (cases d; auto)+
    with t(2) False have "d = CHR '':'' # tl d" "\<forall>c \<in> set (tl d). isdigit c"
      by (cases d; auto)+
    with host_not_before_port [OF hf, of h "tl d"] d(1) show ?thesis by simp
  qed
qed

lemma host_port_unique:
  assumes "h @ t = h' @ t'" and "host_form h" and "host_form h'"
    and "tail_form t" and "tail_form t'"
  shows "h = h' \<and> t = t'"
proof (cases "length h \<le> length h'")
  case True
  with assms show ?thesis using host_port_unique_le by blast
next
  case False
  then have "length h' \<le> length h" by simp
  with assms host_port_unique_le [of h' t' h t] show ?thesis by simp
qed

lemma in_ms_SeqI:
  "st1 \<in> set (ms inp r1 st) \<Longrightarrow> st2 \<in> set (ms inp r2 st1) \<Longrightarrow> st2 \<in> set (ms inp (Seq r1 r2) st)"
  unfolding set_ms_Seq by blast

lemma in_ms_AtomI: "cls_ok c x \<Longrightarrow> (s, g) \<in> set (ms inp (Atom c) (x # s, g))"
  by simp

lemma in_ms_Star_AtomI:
  "\<forall>x \<in> set w. cls_ok c x \<Longrightarrow> (s, g) \<in> set (ms inp (Star (Atom c)) (w @ s, g))"
  unfolding set_ms_Star_Atom by blast

lemma in_ms_Plus_AtomI:
  assumes "w \<noteq> []" and "\<forall>x \<in> set w. cls_ok c x"
  shows "(s, g) \<in> set (ms inp (Plus (Atom c)) (w @ s, g))"
proof -
  from assms obtain x w' where w: "w = x # w'" by (cases w) auto
  with assms(2) have "cls_ok c x" "\<forall>y \<in> set w'. cls_ok c y" by simp_all
  then have "(w' @ s, g) \<in> set (ms inp (Atom c) (x # w' @ s, g))"
    "(s, g) \<in> set (ms inp (Star (Atom c)) (w' @ s, g))"
    by (simp_all only: in_ms_AtomI in_ms_Star_AtomI)
  then show ?thesis
    unfolding Plus_def w by (simp only: append_Cons in_ms_SeqI)
qed

lemma in_ms_GrpI:
  assumes "(s, g) \<in> set (ms inp r (w @ s, g0))"
  shows "(s, g(n \<mapsto> w)) \<in> set (ms inp (Grp n r) (w @ s, g0))"
proof -
  have "(s, g(n \<mapsto> take (length (w @ s) - length s) (w @ s)))
      \<in> (\<lambda>st. (fst st, (snd st)(n \<mapsto> take (length (w @ s) - length (fst st)) (w @ s))))
          ` set (ms inp r (w @ s, g0))"
    using assms by (intro image_eqI [of _ _ "(s, g)"]) simp_all
  then show ?thesis by (simp del: ms.simps add: set_ms_Grp)
qed

lemma all_brackets_split:
  assumes "2 \<le> length rest" and "\<forall>y \<in> set rest. y = CHR '']''"
  shows "\<exists>m. rest = (CHR '']'' # m) @ '']'' \<and> (\<forall>y \<in> set m. y = CHR '']'')"
proof -
  from assms(1) obtain a r' where r: "rest = a # r'" and ne: "r' \<noteq> []"
    by (cases rest; cases "tl rest") auto
  from ne have r': "r' = butlast r' @ [last r']" by simp
  from r r' assms(2) have "a = CHR '']''" "last r' = CHR '']''"
    "\<forall>y \<in> set (butlast r'). y = CHR '']''"
    by (auto dest: in_set_butlastD simp add: ne)
  with r r' show ?thesis by (metis append_Cons)
qed

lemma host_intro:
  assumes "host_form h"
  shows "(t, g(3 \<mapsto> h)) \<in> set (ms inp re_host (h @ t, g))"
proof -
  have "(t, g) \<in> set (ms inp (Alt re_bracket_host (Plus (Atom (NoneOf '':'')))) (h @ t, g))"
  proof (cases "bracket_form h")
    case True
    then obtain c rest where h: "h = CHR ''['' # c # rest" and len: "2 \<le> length rest"
      and all: "\<forall>y \<in> set rest. y = CHR '']''"
      by (auto simp add: bracket_form_def split: list.splits)
    from all_brackets_split [OF len all] obtain m where
      rest: "rest = (CHR '']'' # m) @ '']''" and m: "\<forall>y \<in> set m. y = CHR '']''" by blast
    have a: "(c # rest @ t, g) \<in> set (ms inp (Atom (Lit CHR ''['')) (h @ t, g))"
      unfolding h by simp
    have b: "(rest @ t, g) \<in> set (ms inp (Atom (NoneOf [])) (c # rest @ t, g))"
      by simp
    have "(CHR '']'' # t, g) \<in> set (ms inp (Plus (Atom (Lit CHR '']'')))
        ((CHR '']'' # m) @ CHR '']'' # t, g))"
      using m by (intro in_ms_Plus_AtomI) simp_all
    then have c: "(CHR '']'' # t, g) \<in> set (ms inp (Plus (Atom (Lit CHR '']''))) (rest @ t, g))"
      unfolding rest by simp
    have d: "(t, g) \<in> set (ms inp (Atom (Lit CHR '']'')) (CHR '']'' # t, g))"
      by simp
    have "(t, g) \<in> set (ms inp re_bracket_host (h @ t, g))"
      unfolding re_bracket_host_def
      by (rule in_ms_SeqI [OF a in_ms_SeqI [OF b in_ms_SeqI [OF c d]]])
    then show ?thesis unfolding set_ms_Alt by blast
  next
    case False
    with assms have "h \<noteq> []" "\<forall>x \<in> set h. cls_ok (NoneOf '':'') x"
      by (auto simp add: host_form_def)
    then have "(t, g) \<in> set (ms inp (Plus (Atom (NoneOf '':''))) (h @ t, g))"
      by (rule in_ms_Plus_AtomI)
    then show ?thesis unfolding set_ms_Alt by blast
  qed
  then show ?thesis
    unfolding re_host_def by (rule in_ms_GrpI)
qed

lemma port_intro:
  assumes "port_form p"
  shows "(t, g(4 \<mapsto> p)) \<in> set (ms inp re_port (CHR '':'' # p @ t, g))"
proof -
  from assms obtain x w where p: "p = x # w" and x: "isdigit x" and w: "length w \<le> 4"
    "\<forall>y \<in> set w. isdigit y"
    by (cases p) (auto simp add: port_form_def)
  have a: "(w @ t, g) \<in> set (ms inp (Atom Digit) (p @ t, g))"
    unfolding p using x by simp
  have b: "(t, g) \<in> set (ms inp (Rep 0 4 (Atom Digit)) (w @ t, g))"
    unfolding set_ms_Rep0_Atom using w by auto
  have "(t, g) \<in> set (ms inp (Rep 1 5 (Atom Digit)) (p @ t, g))"
    unfolding Rep_1_5 by (rule in_ms_SeqI [OF a b])
  then have c: "(t, g(4 \<mapsto> p)) \<in> set (ms inp (Grp 4 (Rep 1 5 (Atom Digit))) (p @ t, g))"
    by (rule in_ms_GrpI)
  have d: "(p @ t, g) \<in> set (ms inp (Atom (Lit CHR '':'')) (CHR '':'' # p @ t, g))"
    by simp
  have "(t, g(4 \<mapsto> p)) \<in> set (ms inp (Seq (Atom (Lit CHR '':'')) (Grp 4 (Rep 1 5 (Atom Digit))))
      (CHR '':'' # p @ t, g))"
    by (rule in_ms_SeqI [OF d c])
  then show ?thesis
    unfolding re_port_def set_ms_Opt by blast
qed

lemma authority_match_exists:
  assumes "host_form h" and "tail_form t"
  shows "\<exists>g'. ([], g') \<in> set (ms (h @ t) authority_regex (h @ t, Map.empty))"
proof -
  let ?a = "h @ t"
  have m0: "(?a, Map.empty) \<in> set (ms ?a Bol (?a, Map.empty))" by simp
  have m1: "(?a, Map.empty) \<in> set (ms ?a re_userinfo (?a, Map.empty))"
    unfolding re_userinfo_def set_ms_Opt by blast
  have m2: "(t, [3 \<mapsto> h]) \<in> set (ms ?a re_host (?a, Map.empty))"
    using host_intro [OF assms(1)] .
  have "\<exists>g'. ([], g') \<in> set (ms ?a re_port (t, [3 \<mapsto> h]))"
  proof (cases "t = []")
    case True
    then show ?thesis unfolding re_port_def set_ms_Opt by blast
  next
    case False
    with assms(2) have t: "t = CHR '':'' # tl t @ []" and pf: "port_form (tl t)"
      by (cases t; auto simp add: tail_form_def)+
    from port_intro [OF pf, of "[]" "[3 \<mapsto> h]" ?a] t show ?thesis by metis
  qed
  then obtain g' where m3: "([], g') \<in> set (ms ?a re_port (t, [3 \<mapsto> h]))" by blast
  have m4: "([], g') \<in> set (ms ?a Eol ([], g'))" by simp
  show ?thesis
    unfolding authority_regex_stages
    using in_ms_SeqI [OF m0 in_ms_SeqI [OF m1 in_ms_SeqI [OF m2 in_ms_SeqI [OF m3 m4]]]]
    by blast
qed

lemma authority_parts_sound:
  assumes "authority_parts a = Some (h, p)"
  shows "\<exists>u t. a = u @ h @ t \<and> (u = [] \<or> CHR ''@'' \<in> set a) \<and> host_form h
           \<and> ((t = [] \<and> p = []) \<or> (t = CHR '':'' # p \<and> port_form p))"
proof -
  from assms obtain st where f: "find (\<lambda>st. fst st = []) (ms a authority_regex (a, Map.empty)) = Some st"
    and c: "sub_match (snd st) 3 = h" "sub_match (snd st) 4 = p"
    by (auto simp add: authority_parts_def regex_match_def)
  from f have "st \<in> set (ms a authority_regex (a, Map.empty))" "fst st = []"
    by (auto simp add: find_Some_iff)
  then have "([], snd st) \<in> set (ms a authority_regex (a, Map.empty))"
    by (metis prod.collapse)
  from authority_full_match [OF this] c show ?thesis by blast
qed

lemma authority_parts_canonical:
  assumes hf: "host_form h" and na: "CHR ''@'' \<notin> set h" and pf: "p = [] \<or> port_form p"
  shows "authority_parts (h @ (if p = [] then [] else CHR '':'' # p)) = Some (h, p)"
proof -
  let ?t = "if p = [] then [] else CHR '':'' # p"
  let ?a = "h @ ?t"
  have tf: "tail_form ?t" using pf by (auto simp add: tail_form_def)
  have noat: "CHR ''@'' \<notin> set ?a"
    using na pf by (auto simp add: port_form_def isdigit_def)
  from authority_match_exists [OF hf tf] obtain g0 where
    "([], g0) \<in> set (ms ?a authority_regex (?a, Map.empty))" by blast
  then have "find (\<lambda>st. fst st = []) (ms ?a authority_regex (?a, Map.empty)) \<noteq> None"
    by (auto simp add: find_None_iff)
  then obtain st where f: "find (\<lambda>st. fst st = []) (ms ?a authority_regex (?a, Map.empty)) = Some st"
    by blast
  then have ap: "authority_parts ?a = Some (sub_match (snd st) 3, sub_match (snd st) 4)"
    by (simp add: authority_parts_def regex_match_def)
  from authority_parts_sound [OF ap] noat obtain t' where
    eq: "?a = sub_match (snd st) 3 @ t'" and hf': "host_form (sub_match (snd st) 3)"
    and t': "(t' = [] \<and> sub_match (snd st) 4 = [])
        \<or> (t' = CHR '':'' # sub_match (snd st) 4 \<and> port_form (sub_match (snd st) 4))"
    by auto
  from t' have tf': "tail_form t'" by (auto simp add: tail_form_def)
  from host_port_unique [OF eq hf hf' tf tf'] have "h = sub_match (snd st) 3" "?t = t'"
    by simp_all
  with t' pf have "sub_match (snd st) 3 = h \<and> sub_match (snd st) 4 = p"
    by (auto simp add: port_form_def split: if_splits)
  with ap show ?thesis by simp
qed

lemma digit_char: 
  assumes "d < 10"
  shows "isdigit (char_of (48 + d))" and "digit_val (char_of (48 + d)) = d"
proof -
  have "(of_char (char_of (48 + d)) :: nat) = 48 + d"
    using assms by simp
  then show "isdigit (char_of (48 + d))" "digit_val (char_of (48 + d)) = d"
    using assms by (simp_all add: isdigit_def digit_val_def)
qed

lemma show_nat_digits: "\<forall>c \<in> set (show_nat n). isdigit c"
proof (induction n rule: show_nat.induct)
  case (1 n)
  show ?case
  proof (cases "n < 10")
    case True
    then show ?thesis by (subst show_nat.simps) (simp add: digit_char)
  next
    case False
    have "n mod 10 < 10" by simp
    then have "isdigit (char_of (48 + n mod 10))" by (rule digit_char)
    with 1 False show ?thesis by (subst show_nat.simps) simp
  qed
qed

lemma show_nat_not_Nil: "show_nat n \<noteq> []"
  by (subst show_nat.simps) simp

lemma show_nat_length: "n < 10 ^ k \<Longrightarrow> 0 < k \<Longrightarrow> length (show_nat n) \<le> k"
proof (induction n arbitrary: k rule: show_nat.induct)
  case (1 n)
  show ?case
  proof (cases "n < 10")
    case True
    with 1(3) show ?thesis by (subst show_nat.simps) simp
  next
    case False
    from 1(3) obtain k' where k: "k = Suc k'" by (cases k) auto
    from False 1(2) k have "0 < k'" by (cases k') auto
    moreover from 1(2) k have "n div 10 < 10 ^ k'"
      by (simp add: less_mult_imp_div_less mult.commute)
    ultimately have "length (show_nat (n div 10)) \<le> k'"
      using 1(1) [OF False] by simp
    with False k show ?thesis by (subst show_nat.simps) simp
  qed
qed

lemma dec_value_append:
  "dec_value (ds @ [c]) = 10 * dec_value ds + digit_val c"
  by (simp add: dec_value_def)

lemma dec_value_show_nat: "dec_value (show_nat n) = n"
proof (induction n rule: show_nat.induct)
  case (1 n)
  show ?case
  proof (cases "n < 10")
    case True
    then show ?thesis
      by (subst show_nat.simps) (simp add: dec_value_def digit_char)
  next
    case False
    have "n mod 10 < 10" by simp
    then have "digit_val (char_of (48 + n mod 10)) = n mod 10" by (rule digit_char)
    with 1 False show ?thesis
      by (subst show_nat.simps) (simp add: dec_value_append)
  qed
qed

lemma stoi_digits:
  assumes "ds \<noteq> []" and "\<forall>c \<in> set ds. isdigit c" and "dec_value ds \<le> 2147483647"
  shows "stoi ds = Inr (int (dec_value ds))"
proof -
  from assms(1,2) have hd: "isdigit (hd ds)" by (cases ds) auto
  then have ns: "\<not> isspace (hd ds)" "hd ds \<noteq> CHR ''-''" "hd ds \<noteq> CHR ''+''"
    by (auto simp add: isdigit_def isspace_def)
  from ns(1) assms(1) have dw: "dropWhile isspace ds = ds" by (cases ds) auto
  from assms(2) have tw: "takeWhile isdigit ds = ds" by simp
  show ?thesis
    using assms(1,3) ns(2,3)
    by (simp add: stoi_def dw tw Let_def dec_value_def)
qed

lemma port_try_digits:
  assumes "port_form p"
  shows "port_try p = Inr (word_of_int (int (dec_value p)))"
proof -
  have "dec_value ds < 10 ^ length ds" if "\<forall>c \<in> set ds. isdigit c" for ds
    using that
  proof (induction ds rule: rev_induct)
    case Nil
    show ?case by (simp add: dec_value_def)
  next
    case (snoc c ds)
    then have "dec_value ds < 10 ^ length ds" "digit_val c < 10"
      by (auto simp add: isdigit_def digit_val_def)
    then show ?case by (simp add: dec_value_append)
  qed
  with assms have "dec_value p < 10 ^ length p" by (simp add: port_form_def)
  also have "(10::nat) ^ length p \<le> 10 ^ 5"
    using assms by (intro power_increasing) (simp_all add: port_form_def)
  finally have "dec_value p \<le> 2147483647" by simp
  with assms have "stoi p = Inr (int (dec_value p))"
    by (intro stoi_digits) (auto simp add: port_form_def)
  moreover have "\<not> uint (w :: 16 word) > 65535" for w
    using uint_bounded [of w] by simp
  ultimately show ?thesis
    by (simp add: port_try_def Let_def)
qed

lemma port_form_show_nat:
  assumes "n \<le> 65535"
  shows "port_form (show_nat n)"
proof -
  from assms have "n < 10 ^ 5" by simp
  then have "length (show_nat n) \<le> 5" by (rule show_nat_length) simp
  moreover have "1 \<le> length (show_nat n)"
    using show_nat_not_Nil [of n] by (cases "show_nat n") auto
  ultimately show ?thesis
    using show_nat_digits by (simp add: port_form_def)
qed

lemma port_try_show_nat: "port_try (show_nat (unat (p :: 16 word))) = Inr p"
proof -
  have "unat p < 2 ^ LENGTH(16)" by (rule unsigned_less)
  then have "unat p \<le> 65535" by simp
  then have "port_form (show_nat (unat p))" by (rule port_form_show_nat)
  then show ?thesis
    by (simp add: port_try_digits dec_value_show_nat)
qed

lemma tolower_idem: "tolower (tolower c) = tolower c"
proof (cases "isupper c")
  case True
  then have "(of_char (char_of ((of_char c :: nat) + 32)) :: nat) = of_char c + 32"
    by (simp add: isupper_def)
  with True have "\<not> isupper (tolower c)"
    by (simp add: tolower_def isupper_def)
  then show ?thesis by (simp add: tolower_def [of "tolower c"])
next
  case False
  then show ?thesis by (simp add: tolower_def)
qed

lemma tolower_delims:
  assumes "c \<notin> set '':/?#''"
  shows "tolower c \<notin> set '':/?#''"
proof (cases "isupper c")
  case True
  then have "(of_char (tolower c) :: nat) = of_char c + 32"
    by (simp add: isupper_def tolower_def)
  with True have "97 \<le> (of_char (tolower c) :: nat)" by (simp add: isupper_def)
  then show ?thesis by auto
next
  case False
  with assms show ?thesis by (simp add: tolower_def)
qed

lemma span_stop:
  assumes "\<forall>x \<in> set xs. P x" and "ys = [] \<or> \<not> P (hd ys)"
  shows "takeWhile P (xs @ ys) = xs" and "dropWhile P (xs @ ys) = ys"
proof -
  from assms(2) have "takeWhile P ys = []" "dropWhile P ys = ys"
    by (cases ys; auto)+
  with assms(1) show "takeWhile P (xs @ ys) = xs" "dropWhile P (xs @ ys) = ys"
    by simp_all
qed

lemma url_split_compose:
  assumes sch: "sch \<noteq> []" "\<forall>c \<in> set sch. cls_ok (NoneOf '':/?#'') c"
    and auth: "\<forall>c \<in> set auth. cls_ok (NoneOf ''/?#'') c"
    and pth: "pth \<noteq> []" "hd pth = CHR ''/''" "\<forall>c \<in> set pth. cls_ok (NoneOf ''?#'') c"
    and q: "\<forall>c \<in> set q. cls_ok (NoneOf ''#'') c"
    and f: "\<forall>c \<in> set f. cls_ok AnyChar c"
  shows "url_split (sch @ ''://'' @ auth @ pth @ (if q \<noteq> [] then ''?'' @ q else [])
           @ (if f \<noteq> [] then ''#'' @ f else [])) = Some (sch, auth, pth, q, f)"
proof -
  define fs where "fs = (if f \<noteq> [] then ''#'' @ f else [])"
  define r3 where "r3 = (if q \<noteq> [] then ''?'' @ q else []) @ fs"
  define r2 where "r2 = pth @ r3"
  define r1 where "r1 = ''//'' @ auth @ r2"
  define s where "s = sch @ CHR '':'' # r1"
  have fs: "fs = [] \<or> hd fs = CHR ''#''" and a5: "frag_ok fs" "tl fs = f"
    using f by (simp_all add: fs_def frag_ok_def)
  have r3: "r3 = [] \<or> hd r3 = CHR ''?'' \<or> hd r3 = CHR ''#''"
    using fs by (auto simp add: r3_def)
  have r2: "r2 \<noteq> []" "hd r2 = CHR ''/''"
    using pth(1,2) by (simp_all add: r2_def)
  have "takeWhile (cls_ok (NoneOf '':/?#'')) s = sch"
    "dropWhile (cls_ok (NoneOf '':/?#'')) s = CHR '':'' # r1"
    unfolding s_def using sch(2) by (intro span_stop; simp)+
  then have a1: "split_scheme s = (sch, r1)"
    using sch(1) by (simp add: split_scheme_def)
  have "takeWhile (cls_ok (NoneOf ''/?#'')) (auth @ r2) = auth"
    "dropWhile (cls_ok (NoneOf ''/?#'')) (auth @ r2) = r2"
    using auth r2 by (intro span_stop; simp)+
  then have a2: "split_authority r1 = (auth, r2)"
    by (simp add: split_authority_def r1_def)
  have "r3 = [] \<or> \<not> cls_ok (NoneOf ''?#'') (hd r3)"
    using r3 by auto
  then have "takeWhile (cls_ok (NoneOf ''?#'')) (pth @ r3) = pth"
    "dropWhile (cls_ok (NoneOf ''?#'')) (pth @ r3) = r3"
    using pth(3) by (intro span_stop; blast)+
  then have a3: "split_path r2 = (pth, r3)"
    by (simp add: split_path_def r2_def)
  have a4: "split_query r3 = (q, fs)"
  proof (cases "q = []")
    case True
    then have "r3 = fs" by (simp add: r3_def)
    with fs True show ?thesis by (auto simp add: split_query_def)
  next
    case False
    then have e: "r3 = CHR ''?'' # q @ fs" by (simp add: r3_def)
    have "fs = [] \<or> \<not> cls_ok (NoneOf ''#'') (hd fs)" using fs by auto
    then have "takeWhile (cls_ok (NoneOf ''#'')) (q @ fs) = q"
      "dropWhile (cls_ok (NoneOf ''#'')) (q @ fs) = fs"
      using q by (intro span_stop; blast)+
    then show ?thesis by (simp add: split_query_def e)
  qed
  have "url_split s = Some (sch, auth, pth, q, f)"
    unfolding url_split_def Let_def a1 snd_conv fst_conv a2 a3 a4
    using a5 by simp
  moreover have "s = sch @ ''://'' @ auth @ pth @ (if q \<noteq> [] then ''?'' @ q else [])
           @ (if f \<noteq> [] then ''#'' @ f else [])"
    by (simp add: s_def r1_def r2_def r3_def fs_def)
  ultimately show ?thesis by simp
qed

lemma url_split_props:
  assumes "url_split s = Some (sch, auth, pth, q, f)"
  shows "\<forall>c \<in> set sch. cls_ok (NoneOf '':/?#'') c"
    and "\<forall>c \<in> set auth. cls_ok (NoneOf ''/?#'') c"
    and "\<forall>c \<in> set pth. cls_ok (NoneOf ''?#'') c"
    and "\<forall>c \<in> set q. cls_ok (NoneOf ''#'') c"
    and "\<forall>c \<in> set f. cls_ok AnyChar c"
    and "auth \<noteq> [] \<longrightarrow> pth = [] \<or> hd pth = CHR ''/''"
proof -
  let ?s1 = "snd (split_scheme s)"
  let ?s2 = "snd (split_authority ?s1)"
  let ?s3 = "snd (split_path ?s2)"
  let ?s4 = "snd (split_query ?s3)"
  from assms have ok: "frag_ok ?s4" and e: "sch = fst (split_scheme s)"
    "auth = fst (split_authority ?s1)" "pth = fst (split_path ?s2)"
    "q = fst (split_query ?s3)" "f = tl ?s4"
    by (auto simp add: url_split_def Let_def split: if_splits)
  show "\<forall>c \<in> set sch. cls_ok (NoneOf '':/?#'') c"
    unfolding e split_scheme_def Let_def by (auto dest: set_takeWhileD)
  show "\<forall>c \<in> set auth. cls_ok (NoneOf ''/?#'') c"
    unfolding e split_authority_def by (auto dest: set_takeWhileD)
  show "\<forall>c \<in> set pth. cls_ok (NoneOf ''?#'') c"
    unfolding e split_path_def by (auto dest: set_takeWhileD)
  show "\<forall>c \<in> set q. cls_ok (NoneOf ''#'') c"
    unfolding e split_query_def by (auto dest: set_takeWhileD)
  show "\<forall>c \<in> set f. cls_ok AnyChar c"
    using ok unfolding e frag_ok_def by (cases ?s4) auto
  show "auth \<noteq> [] \<longrightarrow> pth = [] \<or> hd pth = CHR ''/''"
  proof
    assume "auth \<noteq> []"
    then have s2: "?s2 = dropWhile (cls_ok (NoneOf ''/?#'')) (drop 2 ?s1)"
      unfolding e split_authority_def by (auto split: if_splits)
    show "pth = [] \<or> hd pth = CHR ''/''"
    proof (cases "?s2 = []")
      case True
      then show ?thesis unfolding e split_path_def by simp
    next
      case False
      then have "\<not> cls_ok (NoneOf ''/?#'') (hd ?s2)"
        unfolding s2 by (rule hd_dropWhile)
      then have "hd ?s2 = CHR ''/'' \<or> \<not> cls_ok (NoneOf ''?#'') (hd ?s2)" by auto
      with False show ?thesis
        unfolding e split_path_def by (cases ?s2) auto
    qed
  qed
qed

lemma to_string_eq:
  "to_string impl =
     scheme impl @ ''://'' @ host impl
     @ (if port impl \<noteq> 0 \<and> default_ports (scheme impl) \<noteq> Some (port impl)
        then '':'' @ show_nat (unat (port impl)) else [])
     @ path impl
     @ (if query impl \<noteq> [] then ''?'' @ query impl else [])
     @ (if fragment impl \<noteq> [] then ''#'' @ fragment impl else [])"
  by (auto simp add: to_string_def Let_def split: option.splits)

lemma host_form_not_Nil: "host_form h \<Longrightarrow> h \<noteq> []"
  by (auto simp add: host_form_def bracket_form_def)

lemma digit_not_delim: "isdigit c \<Longrightarrow> cls_ok (NoneOf ''/?#'') c"
  by (auto simp add: isdigit_def)

lemma reparse_canonical:
  fixes p :: "16 word"
  assumes sch: "L \<noteq> []" "\<forall>c \<in> set L. cls_ok (NoneOf '':/?#'') c" "map tolower L = L"
    and h: "host_form h" "CHR ''@'' \<notin> set h" "\<forall>c \<in> set h. cls_ok (NoneOf ''/?#'') c"
    and pth: "pth \<noteq> []" "hd pth = CHR ''/''" "\<forall>c \<in> set pth. cls_ok (NoneOf ''?#'') c"
    and q: "\<forall>c \<in> set q. cls_ok (NoneOf ''#'') c"
    and f: "\<forall>c \<in> set f. cls_ok AnyChar c"
    and u: "u = \<lparr> scheme = L, host = h, port = p, path = pth, query = q, fragment = f,
                  query_params = Map.empty, query_params_parsed = False \<rparr>"
  shows "\<exists>p'. URLImpl_ctor (to_string u) = Inr (u\<lparr> port := p' \<rparr>)
             \<and> to_string (u\<lparr> port := p' \<rparr>) = to_string u"
proof -
  define shown where "shown = (p \<noteq> 0 \<and> default_ports L \<noteq> Some p)"
  define pstr where "pstr = (if shown then show_nat (unat p) else [])"
  define auth where "auth = h @ (if pstr = [] then [] else CHR '':'' # pstr)"
  define p' where "p' = (if shown then p else (case default_ports L of Some d \<Rightarrow> d | None \<Rightarrow> 0))"
  have "unat p < 2 ^ LENGTH(16)" by (rule unsigned_less)
  then have pf: "port_form (show_nat (unat p))" by (intro port_form_show_nat) simp
  then have pstr: "pstr = [] \<or> port_form pstr" by (simp add: pstr_def)
  have shown_pstr: "shown = (pstr \<noteq> [])"
    by (simp add: pstr_def show_nat_not_Nil)
  have ts: "to_string u = L @ ''://'' @ auth @ pth @ (if q \<noteq> [] then ''?'' @ q else [])
           @ (if f \<noteq> [] then ''#'' @ f else [])"
    unfolding to_string_eq u auth_def pstr_def shown_def
    by (simp add: show_nat_not_Nil)
  have "\<forall>c \<in> set pstr. cls_ok (NoneOf ''/?#'') c"
    using pstr digit_not_delim by (auto simp add: port_form_def)
  with h(3) have auth_ok: "\<forall>c \<in> set auth. cls_ok (NoneOf ''/?#'') c"
    by (auto simp add: auth_def)
  have auth_ne: "auth \<noteq> []" using host_form_not_Nil [OF h(1)] by (simp add: auth_def)
  have up: "url_parts (to_string u) = Some (L, auth, pth, q, f)"
    unfolding url_parts_eq ts
    using sch(1,2) auth_ok pth q f by (rule url_split_compose)
  have ap: "authority_parts auth = Some (h, pstr)"
    unfolding auth_def using h(1,2) pstr by (rule authority_parts_canonical)
  have pa: "parse_authority L auth = Inr (h, p')"
  proof (cases shown)
    case True
    then have "pstr \<noteq> []" "port_try pstr = Inr p" "p' = p"
      by (simp_all add: pstr_def p'_def show_nat_not_Nil port_try_show_nat)
    then show ?thesis by (simp add: parse_authority_parts ap)
  next
    case False
    then have "pstr = []" by (simp add: pstr_def)
    with False show ?thesis
      by (simp add: parse_authority_parts ap p'_def split: option.splits)
  qed
  have "URLImpl_ctor (to_string u) = Inr \<lparr> scheme = L, host = h, port = p', path = pth,
      query = q, fragment = f, query_params = Map.empty, query_params_parsed = False \<rparr>"
    by (simp add: URLImpl_ctor_parts up auth_ne pa sch(3) pth(1))
  then have ctor: "URLImpl_ctor (to_string u) = Inr (u\<lparr> port := p' \<rparr>)"
    by (simp add: u)
  have "to_string (u\<lparr> port := p' \<rparr>) = to_string u"
  proof (cases shown)
    case True
    then show ?thesis by (simp add: p'_def u)
  next
    case False
    then have "\<not> (p' \<noteq> 0 \<and> default_ports L \<noteq> Some p')"
      by (auto simp add: p'_def split: option.splits)
    with False show ?thesis
      unfolding to_string_eq u shown_def by simp
  qed
  with ctor show ?thesis by blast
qed

lemma ctor_well_formed:
  assumes c: "URLImpl_ctor s = Inr u" and hne: "host u \<noteq> []"
  shows "\<forall>c \<in> set (scheme u). cls_ok (NoneOf '':/?#'') c"
    and "map tolower (scheme u) = scheme u"
    and "host_form (host u)"
    and "\<forall>c \<in> set (host u). cls_ok (NoneOf ''/?#'') c"
    and "path u \<noteq> []" and "hd (path u) = CHR ''/''"
    and "\<forall>c \<in> set (path u). cls_ok (NoneOf ''?#'') c"
    and "\<forall>c \<in> set (query u). cls_ok (NoneOf ''#'') c"
    and "\<forall>c \<in> set (fragment u). cls_ok AnyChar c"
    and "query_params u = Map.empty" and "query_params_parsed u = False"
proof -
  from c obtain sch auth pth q f where up: "url_parts s = Some (sch, auth, pth, q, f)"
    by (auto simp add: URLImpl_ctor_parts split: option.splits)
  from c up obtain hp where
    hp: "(if auth \<noteq> [] then parse_authority (map tolower sch) auth else Inr ([], 0)) = Inr hp"
    and u: "u = \<lparr> scheme = map tolower sch, host = fst hp, port = snd hp,
                  path = (if pth \<noteq> [] then pth else ''/''), query = q, fragment = f,
                  query_params = Map.empty, query_params_parsed = False \<rparr>"
    by (auto simp add: URLImpl_ctor_parts split: sum.splits)
  from hp hne u have ane: "auth \<noteq> []" by (auto split: if_splits)
  with hp have "parse_authority (map tolower sch) auth = Inr hp" by simp
  then obtain pstr where ap: "authority_parts auth = Some (fst hp, pstr)"
    by (auto simp add: parse_authority_parts split: option.splits if_splits sum.splits)
  from authority_parts_sound [OF ap] obtain w t where
    a: "auth = w @ fst hp @ t" and hf: "host_form (fst hp)" by blast
  from up have us: "url_split s = Some (sch, auth, pth, q, f)" by (simp add: url_parts_eq)
  note props = url_split_props [OF us]
  show "\<forall>c \<in> set (scheme u). cls_ok (NoneOf '':/?#'') c"
    using props(1) tolower_delims by (auto simp add: u)
  show "map tolower (scheme u) = scheme u"
    by (simp add: u tolower_idem)
  show "host_form (host u)" using hf by (simp add: u)
  show "\<forall>c \<in> set (host u). cls_ok (NoneOf ''/?#'') c"
    using props(2) a by (auto simp add: u)
  show "path u \<noteq> []" by (simp add: u)
  show "hd (path u) = CHR ''/''"
    using props(6) ane by (auto simp add: u)
  show "\<forall>c \<in> set (path u). cls_ok (NoneOf ''?#'') c"
    using props(3) by (auto simp add: u)
  show "\<forall>c \<in> set (query u). cls_ok (NoneOf ''#'') c"
    using props(4) by (simp add: u)
  show "\<forall>c \<in> set (fragment u). cls_ok AnyChar c"
    using props(5) by (simp add: u)
  show "query_params u = Map.empty" "query_params_parsed u = False"
    by (simp_all add: u)
qed

section \<open>Evaluation on the inputs of the specification\<close>

lemmas url_split_eval =
  url_parts_eq url_split_def split_scheme_def split_authority_def split_path_def
  split_query_def frag_ok_def Let_def

lemma default_ports_eval:
  "default_ports ''http'' = Some 80" "default_ports ''https'' = Some 443"
  "default_ports ''ws'' = Some 80" "default_ports ''wss'' = Some 443"
  "default_ports ''ftp'' = Some 21" "default_ports [] = None"
  by (simp_all add: default_ports_def)

lemma url_parts_not_a_url: "url_parts ''not a url'' = Some ([], [], ''not a url'', [], [])"
  by (simp add: url_split_eval)

lemma url_parts_http_slashes: "url_parts ''http://'' = Some (''http'', [], [], [], [])"
  by (simp add: url_split_eval)

lemma url_parts_https_example:
  "url_parts ''https://example.com'' = Some (''https'', ''example.com'', [], [], [])"
  by (simp add: url_split_eval)

lemma url_parts_port_text:
  "url_parts ''http://example.com:port/'' = Some (''http'', ''example.com:port'', ''/'', [], [])"
  by (simp add: url_split_eval)

lemma url_parts_full_example:
  "url_parts ''https://example.com:8080/path?query#fragment''
     = Some (''https'', ''example.com:8080'', ''/path'', ''query'', ''fragment'')"
  by (simp add: url_split_eval)



lemma url_parts_port_0:
  "url_parts ''http://example.com:0/'' = Some (''http'', ''example.com:0'', ''/'', [], [])"
  by (simp add: url_split_eval)

lemma url_parts_two_ats:
  "url_parts ''http://a@b@c/'' = Some (''http'', ''a@b@c'', ''/'', [], [])"
  "url_parts ''http://b@c/'' = Some (''http'', ''b@c'', ''/'', [], [])"
  by (simp_all add: url_split_eval)

lemma url_parts_bare_path:
  "url_parts ''://not a url'' = Some ([], [], ''://not a url'', [], [])"
  by (simp add: url_split_eval)

lemma url_parts_http_foo:
  "url_parts ''http:foo'' = Some (''http'', [], ''foo'', [], [])"
  "url_parts ''http://foo'' = Some (''http'', ''foo'', [], [], [])"
  by (simp_all add: url_split_eval)

lemma authority_parts_example: "authority_parts ''example.com'' = Some (''example.com'', [])"
  unfolding authority_parts_def by code_simp

lemma authority_parts_port_text: "authority_parts ''example.com:port'' = None"
  unfolding authority_parts_def by code_simp

lemma authority_parts_port_8080:
  "authority_parts ''example.com:8080'' = Some (''example.com'', ''8080'')"
  unfolding authority_parts_def by code_simp



lemma authority_parts_port_0:
  "authority_parts ''example.com:0'' = Some (''example.com'', ''0'')"
  unfolding authority_parts_def by code_simp

lemma authority_parts_two_ats:
  "authority_parts ''a@b@c'' = Some (''b@c'', [])"
  "authority_parts ''b@c'' = Some (''c'', [])"
  unfolding authority_parts_def by code_simp+

lemma authority_parts_foo: "authority_parts ''foo'' = Some (''foo'', [])"
  unfolding authority_parts_def by code_simp

lemma port_try_eval:
  "port_try ''8080'' = Inr 8080" "port_try ''99999'' = Inr 34463" "port_try ''0'' = Inr 0"
  by (simp_all add: port_try_def stoi_def char_eval Let_def)

lemma ctor_not_a_url:
  "URLImpl_ctor ''not a url'' = Inr \<lparr> scheme = [], host = [], port = 0, path = ''not a url'',
      query = [], fragment = [], query_params = Map.empty, query_params_parsed = False \<rparr>"
  by (simp add: URLImpl_ctor_parts url_parts_not_a_url)

lemma ctor_bare_path:
  "URLImpl_ctor ''://not a url'' = Inr \<lparr> scheme = [], host = [], port = 0,
      path = ''://not a url'', query = [], fragment = [],
      query_params = Map.empty, query_params_parsed = False \<rparr>"
  by (simp add: URLImpl_ctor_parts url_parts_bare_path)

lemma ctor_http_slashes:
  "URLImpl_ctor ''http://'' = Inr \<lparr> scheme = ''http'', host = [], port = 0, path = ''/'',
      query = [], fragment = [], query_params = Map.empty, query_params_parsed = False \<rparr>"
  by (simp add: URLImpl_ctor_parts url_parts_http_slashes char_eval)

lemma ctor_https_example:
  "URLImpl_ctor ''https://example.com'' = Inr \<lparr> scheme = ''https'', host = ''example.com'',
      port = 443, path = ''/'', query = [], fragment = [],
      query_params = Map.empty, query_params_parsed = False \<rparr>"
  by (simp add: URLImpl_ctor_parts url_parts_https_example parse_authority_parts
        authority_parts_example default_ports_eval char_eval)

lemma ctor_port_text:
  "URLImpl_ctor ''http://example.com:port/'' = Inl (URLParseError ''Invalid authority component'')"
  by (simp add: URLImpl_ctor_parts url_parts_port_text parse_authority_parts
        authority_parts_port_text char_eval)

lemma ctor_full_example:
  "URLImpl_ctor ''https://example.com:8080/path?query#fragment''
     = Inr \<lparr> scheme = ''https'', host = ''example.com'', port = 8080, path = ''/path'',
         query = ''query'', fragment = ''fragment'',
         query_params = Map.empty, query_params_parsed = False \<rparr>"
  by (simp add: URLImpl_ctor_parts url_parts_full_example parse_authority_parts
        authority_parts_port_8080 port_try_eval char_eval)



lemma ctor_two_ats:
  "URLImpl_ctor ''http://a@b@c/''
     = Inr \<lparr> scheme = ''http'', host = ''b@c'', port = 80, path = ''/'',
         query = [], fragment = [], query_params = Map.empty, query_params_parsed = False \<rparr>"
  "URLImpl_ctor ''http://b@c/''
     = Inr \<lparr> scheme = ''http'', host = ''c'', port = 80, path = ''/'',
         query = [], fragment = [], query_params = Map.empty, query_params_parsed = False \<rparr>"
  by (simp_all add: URLImpl_ctor_parts url_parts_two_ats parse_authority_parts
        authority_parts_two_ats default_ports_eval char_eval)

lemma ctor_http_foo:
  "URLImpl_ctor ''http:foo''
     = Inr \<lparr> scheme = ''http'', host = [], port = 0, path = ''foo'',
         query = [], fragment = [], query_params = Map.empty, query_params_parsed = False \<rparr>"
  "URLImpl_ctor ''http://foo''
     = Inr \<lparr> scheme = ''http'', host = ''foo'', port = 80, path = ''/'',
         query = [], fragment = [], query_params = Map.empty, query_params_parsed = False \<rparr>"
  by (simp_all add: URLImpl_ctor_parts url_parts_http_foo parse_authority_parts
        authority_parts_foo default_ports_eval char_eval)

section \<open>Claims\<close>

subsection \<open>C1\<close>

text \<open>
  C1, as stated, fails. The host of \<open>http://a@b@c/\<close> is \<open>b@c\<close> (the host alternative
  \<open>[^:]+\<close> admits \<open>@\<close>), the serialized form \<open>http://b@c/\<close> parses to the host \<open>c\<close>,
  and the two values serialize differently. Without a scheme, or without an authority
  before a path that does not start with a slash, the serialized form is not stable
  either.
\<close>

theorem parse_to_string_unstable:
  "parse ''http://a@b@c/''
     = Inr (Some \<lparr> scheme = ''http'', host = ''b@c'', port = 80, path = ''/'',
         query = [], fragment = [], query_params = Map.empty, query_params_parsed = False \<rparr>)
   \<and> to_string \<lparr> scheme = ''http'', host = ''b@c'', port = 80, path = ''/'',
         query = [], fragment = [], query_params = Map.empty, query_params_parsed = False \<rparr>
       = ''http://b@c/''
   \<and> parse ''http://b@c/''
     = Inr (Some \<lparr> scheme = ''http'', host = ''c'', port = 80, path = ''/'',
         query = [], fragment = [], query_params = Map.empty, query_params_parsed = False \<rparr>)
   \<and> to_string \<lparr> scheme = ''http'', host = ''c'', port = 80, path = ''/'',
         query = [], fragment = [], query_params = Map.empty, query_params_parsed = False \<rparr>
       = ''http://c/''
   \<and> ''http://c/'' \<noteq> ''http://b@c/''
   \<and> parse ''not a url''
     = Inr (Some \<lparr> scheme = [], host = [], port = 0, path = ''not a url'',
         query = [], fragment = [], query_params = Map.empty, query_params_parsed = False \<rparr>)
   \<and> to_string \<lparr> scheme = [], host = [], port = 0, path = ''not a url'',
         query = [], fragment = [], query_params = Map.empty, query_params_parsed = False \<rparr>
       = ''://not a url''
   \<and> parse ''://not a url''
     = Inr (Some \<lparr> scheme = [], host = [], port = 0, path = ''://not a url'',
         query = [], fragment = [], query_params = Map.empty, query_params_parsed = False \<rparr>)
   \<and> to_string \<lparr> scheme = [], host = [], port = 0, path = ''://not a url'',
         query = [], fragment = [], query_params = Map.empty, query_params_parsed = False \<rparr>
       = ''://://not a url''
   \<and> ''://://not a url'' \<noteq> ''://not a url''
   \<and> parse ''http:foo''
     = Inr (Some \<lparr> scheme = ''http'', host = [], port = 0, path = ''foo'',
         query = [], fragment = [], query_params = Map.empty, query_params_parsed = False \<rparr>)
   \<and> to_string \<lparr> scheme = ''http'', host = [], port = 0, path = ''foo'',
         query = [], fragment = [], query_params = Map.empty, query_params_parsed = False \<rparr>
       = ''http://foo''
   \<and> parse ''http://foo''
     = Inr (Some \<lparr> scheme = ''http'', host = ''foo'', port = 80, path = ''/'',
         query = [], fragment = [], query_params = Map.empty, query_params_parsed = False \<rparr>)
   \<and> to_string \<lparr> scheme = ''http'', host = ''foo'', port = 80, path = ''/'',
         query = [], fragment = [], query_params = Map.empty, query_params_parsed = False \<rparr>
       = ''http://foo/''
   \<and> ''http://foo/'' \<noteq> ''http://foo''"
  by (simp add: parse_def ctor_two_ats ctor_not_a_url ctor_bare_path ctor_http_foo
        to_string_eq default_ports_eval)

text \<open>
  C1, amended. For every input \<open>s\<close> that \<open>parse\<close> accepts with a non-empty scheme and a
  non-empty host without \<open>@\<close>, \<open>parse\<close> accepts the serialized form as well, and the value
  it gives serializes to the same string.
\<close>

theorem parse_to_string_stable:
  assumes "parse s = Inr (Some u)" and "scheme u \<noteq> []" and "host u \<noteq> []"
    and "CHR ''@'' \<notin> set (host u)"
  shows "\<exists>v. parse (to_string u) = Inr (Some v) \<and> to_string v = to_string u"
proof -
  from assms(1) have c: "URLImpl_ctor s = Inr u"
    by (auto simp add: parse_def split: sum.splits exn.splits)
  note wf = ctor_well_formed [OF c assms(3)]
  have u: "u = \<lparr> scheme = scheme u, host = host u, port = port u, path = path u,
      query = query u, fragment = fragment u,
      query_params = Map.empty, query_params_parsed = False \<rparr>"
    using wf(10,11) by (cases u) simp
  from reparse_canonical [OF assms(2) wf(1,2,3) assms(4) wf(4,5,6,7,8,9) u]
  obtain p' where "URLImpl_ctor (to_string u) = Inr (u\<lparr> port := p' \<rparr>)"
    and "to_string (u\<lparr> port := p' \<rparr>) = to_string u" by blast
  then show ?thesis by (simp add: parse_def)
qed

theorem parse_to_string_stable_witness:
  "parse ''https://example.com:8080/path?query#fragment''
     = Inr (Some \<lparr> scheme = ''https'', host = ''example.com'', port = 8080, path = ''/path'',
         query = ''query'', fragment = ''fragment'',
         query_params = Map.empty, query_params_parsed = False \<rparr>)
   \<and> ''https'' \<noteq> [] \<and> ''example.com'' \<noteq> [] \<and> CHR ''@'' \<notin> set ''example.com''
   \<and> (\<exists>v. parse ''https://example.com:8080/path?query#fragment'' = Inr (Some v)
          \<and> to_string v = ''https://example.com:8080/path?query#fragment'')"
proof -
  let ?u = "\<lparr> scheme = ''https'', host = ''example.com'', port = 8080, path = ''/path'',
         query = ''query'', fragment = ''fragment'',
         query_params = Map.empty, query_params_parsed = False \<rparr>"
  have p: "parse ''https://example.com:8080/path?query#fragment'' = Inr (Some ?u)"
    by (simp add: parse_def ctor_full_example)
  have ts: "to_string ?u = ''https://example.com:8080/path?query#fragment''"
    by (simp add: to_string_eq default_ports_eval show_nat.simps char_eval)
  from parse_to_string_stable [OF p] ts show ?thesis
    using p by simp
qed

subsection \<open>C2\<close>




subsection \<open>C3\<close>

text \<open>
  C3 (the code differs). The specification and the tests of the repository say that
  \<open>parse("not a url")\<close> gives no value. The URL pattern matches the string as a bare path
  and, with no authority, nothing rejects it: the constructor succeeds with an empty scheme,
  an empty host and the path \<open>not a url\<close>.
\<close>

theorem parse_not_a_url:
  "parse ''not a url'' = Inr (Some \<lparr> scheme = [], host = [], port = 0, path = ''not a url'',
      query = [], fragment = [], query_params = Map.empty, query_params_parsed = False \<rparr>)"
  by (simp add: parse_def ctor_not_a_url)

subsection \<open>C4\<close>

text \<open>
  C4 (the code differs). The specification and the tests say that \<open>parse("http://")\<close> gives
  no value. The authority block of the constructor is skipped when the authority is
  empty, so the constructor succeeds with the scheme \<open>http\<close>, an empty host, port 0 and
  the default path.
\<close>

theorem parse_http_empty_authority:
  "parse ''http://'' = Inr (Some \<lparr> scheme = ''http'', host = [], port = 0, path = ''/'',
      query = [], fragment = [], query_params = Map.empty, query_params_parsed = False \<rparr>)"
  by (simp add: parse_def ctor_http_slashes)

subsection \<open>C5\<close>

text \<open>
  C5, as stated, fails: a percent sign followed by two characters that are not
  hexadecimal digits does not pass through; the three characters become one byte.
\<close>

theorem decode_percent_non_hex:
  "decode_uri_component ''%zz'' = Some [CHR 0x00]
   \<and> decode_uri_component ''%zz'' \<noteq> Some ''%zz''"
  by (simp add: decode_uri_component_Cons decode_uri_component_Nil hex_extract_def char_eval)

text \<open>
  C5, amended. Percent-decoding scans its input from left to right. A percent sign with at
  least two characters after it, not both white space, consumes both and gives one byte:
  the byte the base-16 extraction stores for them, which is the value of the two
  hexadecimal digits when both are hexadecimal digits. A plus sign gives a space. Every
  other character passes through unchanged, and a percent sign with fewer than two
  characters after it is left as it is. When no percent sign of the input is directly
  followed by two white-space characters, the decoding has a result. Of a percent sign
  that the scan meets with two white-space characters after it nothing is stated: there
  the source reads a variable that was never set, and the call has no defined result.
\<close>

theorem decode_uri_component_scan:
  "decode_uri_component [] = Some []
   \<and> (\<not> (isspace a \<and> isspace b) \<longrightarrow>
        (\<exists>val. hex_extract [a, b] = Some val
           \<and> decode_uri_component (CHR ''%'' # a # b # rest)
               = map_option ((#) (char_of val)) (decode_uri_component rest)))
   \<and> (isxdigit a \<and> isxdigit b \<longrightarrow>
        decode_uri_component (CHR ''%'' # a # b # rest)
          = map_option ((#) (char_of (16 * hex_val a + hex_val b))) (decode_uri_component rest))
   \<and> decode_uri_component (CHR ''+'' # rest)
       = map_option ((#) CHR '' '') (decode_uri_component rest)
   \<and> (c \<noteq> CHR ''%'' \<and> c \<noteq> CHR ''+'' \<longrightarrow>
        decode_uri_component (c # rest) = map_option ((#) c) (decode_uri_component rest))
   \<and> (length rest < 2 \<longrightarrow>
        decode_uri_component (CHR ''%'' # rest)
          = map_option ((#) CHR ''%'') (decode_uri_component rest))
   \<and> ((\<forall>i. i + 2 < length s \<and> s ! i = CHR ''%'' \<longrightarrow>
             \<not> (isspace (s ! (i + 1)) \<and> isspace (s ! (i + 2)))) \<longrightarrow>
        (\<exists>r. decode_uri_component s = Some r))"
proof -
  have stored: "\<exists>val. hex_extract [a, b] = Some val
           \<and> decode_uri_component (CHR ''%'' # a # b # rest)
               = map_option ((#) (char_of val)) (decode_uri_component rest)"
    if ns: "\<not> (isspace a \<and> isspace b)"
  proof -
    obtain val where "hex_extract [a, b] = Some val"
      using ns hex_extract_stores [of a b] by auto
    then show ?thesis by (simp add: decode_uri_component_Cons)
  qed
  have digits: "decode_uri_component (CHR ''%'' # a # b # rest)
          = map_option ((#) (char_of (16 * hex_val a + hex_val b))) (decode_uri_component rest)"
    if xd: "isxdigit a \<and> isxdigit b"
  proof -
    have "hex_extract [a, b] = Some (int (16 * hex_val a + hex_val b))"
      using xd by (simp only: hex_extract_digits)
    moreover have "char_of (int (16 * hex_val a + hex_val b)) = char_of (16 * hex_val a + hex_val b)"
      by (simp only: char_of_nat)
    ultimately show ?thesis
      by (simp only: decode_uri_component_Cons) simp
  qed
  have defined: "\<exists>r. decode_uri_component s = Some r"
    if "\<forall>i. i + 2 < length s \<and> s ! i = CHR ''%'' \<longrightarrow>
             \<not> (isspace (s ! (i + 1)) \<and> isspace (s ! (i + 2)))"
    using that by (intro decode_uri_component_defined) blast
  have others: "decode_uri_component [] = Some []"
    "decode_uri_component (CHR ''+'' # rest)
       = map_option ((#) CHR '' '') (decode_uri_component rest)"
    "c \<noteq> CHR ''%'' \<and> c \<noteq> CHR ''+'' \<longrightarrow>
        decode_uri_component (c # rest) = map_option ((#) c) (decode_uri_component rest)"
    "length rest < 2 \<longrightarrow>
        decode_uri_component (CHR ''%'' # rest)
          = map_option ((#) CHR ''%'') (decode_uri_component rest)"
    by (simp_all add: decode_uri_component_Cons decode_uri_component_Nil)
  from stored digits defined others show ?thesis by blast
qed

theorem decode_uri_component_scan_witness:
  "isxdigit CHR ''4'' \<and> isxdigit CHR ''1'' \<and> \<not> isspace CHR ''4''
   \<and> hex_extract ''41'' = Some 65
   \<and> decode_uri_component ''%41'' = Some ''A''
   \<and> decode_uri_component ''+'' = Some '' ''
   \<and> decode_uri_component ''q'' = Some ''q''
   \<and> length ''1'' < 2 \<and> decode_uri_component ''%1'' = Some ''%1''
   \<and> (\<exists>r. decode_uri_component ''%4 '' = Some r)"
proof -
  have sp: "\<forall>i. i + 2 < length ''%4 '' \<and> ''%4 '' ! i = CHR ''%'' \<longrightarrow>
          \<not> (isspace (''%4 '' ! (i + 1)) \<and> isspace (''%4 '' ! (i + 2)))"
    by (simp add: isspace_def)
  have hx: "hex_extract ''41'' = Some 65"
    by (simp add: hex_extract_def char_eval)
  from sp hx show ?thesis
    using decode_uri_component_scan [of "CHR ''4''" "CHR ''1''" "[]" "CHR ''q''" "''%4 ''"]
      decode_uri_component_scan [of "CHR ''4''" "CHR ''1''" "''1''" "CHR ''1''" "[]"]
      decode_uri_component_scan [of "CHR ''4''" "CHR ''1''" "[]" "CHR ''1''" "[]"]
    by (simp add: char_eval)
qed

subsection \<open>C6\<close>

text \<open>
  C6. \<open>to_string\<close> gives scheme, \<open>://\<close>, host, the port segment, path, then the query
  after \<open>?\<close> and the fragment after \<open>#\<close> when they are not empty. The port segment is there
  exactly when the port is not 0 and the table of default ports has no entry for the scheme
  or an entry that differs from the port. The scheme looked up is the stored one: after a
  successful \<open>set_scheme\<close> it is the new scheme.
\<close>

theorem to_string_port_segment:
  "to_string impl =
     scheme impl @ ''://'' @ host impl
     @ (if port impl \<noteq> 0 \<and> (default_ports (scheme impl) = None
                              \<or> default_ports (scheme impl) \<noteq> Some (port impl))
        then '':'' @ show_nat (unat (port impl)) else [])
     @ path impl
     @ (if query impl \<noteq> [] then ''?'' @ query impl else [])
     @ (if fragment impl \<noteq> [] then ''#'' @ fragment impl else [])
   \<and> (fst (set_scheme name impl) = Inr () \<longrightarrow>
        to_string (snd (set_scheme name impl)) =
          map tolower name @ ''://'' @ host impl
          @ (if port impl \<noteq> 0 \<and> (default_ports (map tolower name) = None
                                   \<or> default_ports (map tolower name) \<noteq> Some (port impl))
             then '':'' @ show_nat (unat (port impl)) else [])
          @ path impl
          @ (if query impl \<noteq> [] then ''?'' @ query impl else [])
          @ (if fragment impl \<noteq> [] then ''#'' @ fragment impl else []))"
proof -
  have "to_string (snd (set_scheme name impl)) =
          map tolower name @ ''://'' @ host impl
          @ (if port impl \<noteq> 0 \<and> default_ports (map tolower name) \<noteq> Some (port impl)
             then '':'' @ show_nat (unat (port impl)) else [])
          @ path impl
          @ (if query impl \<noteq> [] then ''?'' @ query impl else [])
          @ (if fragment impl \<noteq> [] then ''#'' @ fragment impl else [])"
    if "fst (set_scheme name impl) = Inr ()"
  proof -
    from that have "snd (set_scheme name impl) = impl\<lparr> scheme := map tolower name \<rparr>"
      by (simp add: set_scheme_def Let_def split: if_splits)
    then show ?thesis by (simp add: to_string_eq)
  qed
  then show ?thesis
    using to_string_eq [of impl] by auto
qed

theorem to_string_port_segment_witness:
  "to_string \<lparr> scheme = ''http'', host = ''example.com'', port = 443, path = ''/a'',
       query = ''q'', fragment = [], query_params = Map.empty, query_params_parsed = False \<rparr>
     = ''http://example.com:443/a?q''
   \<and> fst (set_scheme ''HTTPS'' \<lparr> scheme = ''http'', host = ''example.com'', port = 443,
       path = ''/a'', query = ''q'', fragment = [], query_params = Map.empty,
       query_params_parsed = False \<rparr>) = Inr ()
   \<and> to_string (snd (set_scheme ''HTTPS'' \<lparr> scheme = ''http'', host = ''example.com'',
       port = 443, path = ''/a'', query = ''q'', fragment = [], query_params = Map.empty,
       query_params_parsed = False \<rparr>))
     = ''https://example.com/a?q''"
  using to_string_port_segment [of "\<lparr> scheme = ''http'', host = ''example.com'', port = 443,
       path = ''/a'', query = ''q'', fragment = [], query_params = Map.empty,
       query_params_parsed = False \<rparr>" "''HTTPS''"]
  by (simp add: set_scheme_def default_ports_eval show_nat.simps char_eval)

subsection \<open>C7\<close>

text \<open>
  C7. \<open>set_scheme\<close> lower-cases its argument. It fails, with the validation error of an
  invalid scheme, exactly when the lowered string is empty or does not start with an ASCII
  letter, and then the object is as before. Otherwise the stored scheme is the lowered
  string and every other field is as before. So it fails on the empty string and on
  \<open>9abc\<close>, and after \<open>set_scheme("HTTPS")\<close> the scheme is \<open>https\<close> and the URL is secure.
\<close>

theorem set_scheme_checks_lowered:
  "((\<exists>e. fst (set_scheme name impl) = Inl e)
      = (map tolower name = [] \<or> \<not> isalpha (hd (map tolower name))))
   \<and> (map tolower name = [] \<or> \<not> isalpha (hd (map tolower name)) \<longrightarrow>
        set_scheme name impl = (Inl (URLValidationError ''Invalid scheme format''), impl))
   \<and> (\<not> (map tolower name = [] \<or> \<not> isalpha (hd (map tolower name))) \<longrightarrow>
        set_scheme name impl = (Inr (), impl\<lparr> scheme := map tolower name \<rparr>)
        \<and> scheme (snd (set_scheme name impl)) = map tolower name
        \<and> host (snd (set_scheme name impl)) = host impl
        \<and> port (snd (set_scheme name impl)) = port impl
        \<and> path (snd (set_scheme name impl)) = path impl
        \<and> query (snd (set_scheme name impl)) = query impl
        \<and> fragment (snd (set_scheme name impl)) = fragment impl
        \<and> query_params (snd (set_scheme name impl)) = query_params impl
        \<and> query_params_parsed (snd (set_scheme name impl)) = query_params_parsed impl)
   \<and> fst (set_scheme [] impl) = Inl (URLValidationError ''Invalid scheme format'')
   \<and> fst (set_scheme ''9abc'' impl) = Inl (URLValidationError ''Invalid scheme format'')
   \<and> fst (set_scheme ''HTTPS'' impl) = Inr ()
   \<and> scheme (snd (set_scheme ''HTTPS'' impl)) = ''https''
   \<and> is_secure (snd (set_scheme ''HTTPS'' impl))"
proof -
  have ex: "fst (set_scheme [] impl) = Inl (URLValidationError ''Invalid scheme format'')"
    "fst (set_scheme ''9abc'' impl) = Inl (URLValidationError ''Invalid scheme format'')"
    "set_scheme ''HTTPS'' impl = (Inr (), impl\<lparr> scheme := ''https'' \<rparr>)"
    by (simp_all add: set_scheme_def char_eval)
  have gen: "((\<exists>e. fst (set_scheme name impl) = Inl e)
      = (map tolower name = [] \<or> \<not> isalpha (hd (map tolower name))))"
    by (simp add: set_scheme_def Let_def)
  show ?thesis
    unfolding gen ex by (simp add: set_scheme_def Let_def is_secure_def)
qed

theorem set_scheme_checks_lowered_witness:
  "(map tolower ''9abc'' = [] \<or> \<not> isalpha (hd (map tolower ''9abc'')))
   \<and> set_scheme ''9abc'' \<lparr> scheme = ''http'', host = ''h'', port = 80, path = ''/'',
        query = [], fragment = [], query_params = Map.empty, query_params_parsed = False \<rparr>
      = (Inl (URLValidationError ''Invalid scheme format''),
         \<lparr> scheme = ''http'', host = ''h'', port = 80, path = ''/'',
        query = [], fragment = [], query_params = Map.empty, query_params_parsed = False \<rparr>)
   \<and> \<not> (map tolower ''WsS'' = [] \<or> \<not> isalpha (hd (map tolower ''WsS'')))
   \<and> set_scheme ''WsS'' \<lparr> scheme = ''http'', host = ''h'', port = 80, path = ''/'',
        query = [], fragment = [], query_params = Map.empty, query_params_parsed = False \<rparr>
      = (Inr (), \<lparr> scheme = ''wss'', host = ''h'', port = 80, path = ''/'',
        query = [], fragment = [], query_params = Map.empty, query_params_parsed = False \<rparr>)"
proof -
  let ?u = "\<lparr> scheme = ''http'', host = ''h'', port = 80, path = ''/'',
        query = [], fragment = [], query_params = Map.empty, query_params_parsed = False \<rparr>"
  have l1: "map tolower ''9abc'' = [] \<or> \<not> isalpha (hd (map tolower ''9abc''))"
    by (simp add: char_eval)
  have l2: "\<not> (map tolower ''WsS'' = [] \<or> \<not> isalpha (hd (map tolower ''WsS'')))"
    by (simp add: char_eval)
  have l3: "map tolower ''WsS'' = ''wss''"
    by (simp add: char_eval)
  from set_scheme_checks_lowered [of "''9abc''" ?u] l1
  have r1: "set_scheme ''9abc'' ?u = (Inl (URLValidationError ''Invalid scheme format''), ?u)"
    by blast
  from set_scheme_checks_lowered [of "''WsS''" ?u] l2
  have "set_scheme ''WsS'' ?u = (Inr (), ?u\<lparr> scheme := map tolower ''WsS'' \<rparr>)"
    by blast
  then have r2: "set_scheme ''WsS'' ?u = (Inr (), ?u\<lparr> scheme := ''wss'' \<rparr>)"
    by (simp only: l3)
  show ?thesis
    using l1 l2 r1 r2 by simp
qed

subsection \<open>C8\<close>

text \<open>
  C8. \<open>set_port(0)\<close> fails with the validation error of a zero port and leaves the object
  as it was. For every number from 1 to 65535, \<open>set_port\<close> succeeds: the stored port is
  that number and every other field is as before.
\<close>

theorem set_port_zero_rejected:
  "set_port 0 impl = (Inl (URLValidationError ''Port cannot be 0''), impl)
   \<and> (0 < n \<and> n \<le> 65535 \<longrightarrow>
        fst (set_port (of_nat n) impl) = Inr ()
        \<and> unat (port (snd (set_port (of_nat n) impl))) = n
        \<and> snd (set_port (of_nat n) impl) = impl\<lparr> port := of_nat n \<rparr>
        \<and> scheme (snd (set_port (of_nat n) impl)) = scheme impl
        \<and> host (snd (set_port (of_nat n) impl)) = host impl
        \<and> path (snd (set_port (of_nat n) impl)) = path impl
        \<and> query (snd (set_port (of_nat n) impl)) = query impl
        \<and> fragment (snd (set_port (of_nat n) impl)) = fragment impl
        \<and> query_params (snd (set_port (of_nat n) impl)) = query_params impl
        \<and> query_params_parsed (snd (set_port (of_nat n) impl)) = query_params_parsed impl)"
proof -
  have nz: "(of_nat n :: 16 word) \<noteq> 0" and un: "unat (of_nat n :: 16 word) = n"
    if "0 < n" "n \<le> 65535"
  proof -
    show un: "unat (of_nat n :: 16 word) = n"
      using that by (simp add: unat_of_nat)
    show "(of_nat n :: 16 word) \<noteq> 0"
    proof
      assume "(of_nat n :: 16 word) = 0"
      then have "unat (of_nat n :: 16 word) = 0" by simp
      with un that show False by simp
    qed
  qed
  show ?thesis
    using nz un by (simp add: set_port_def)
qed

theorem set_port_zero_rejected_witness:
  "(0::nat) < 8080 \<and> (8080::nat) \<le> 65535
   \<and> set_port 8080 \<lparr> scheme = ''http'', host = ''h'', port = 80, path = ''/'',
        query = [], fragment = [], query_params = Map.empty, query_params_parsed = False \<rparr>
      = (Inr (), \<lparr> scheme = ''http'', host = ''h'', port = 8080, path = ''/'',
        query = [], fragment = [], query_params = Map.empty, query_params_parsed = False \<rparr>)"
  using set_port_zero_rejected [of "\<lparr> scheme = ''http'', host = ''h'', port = 80, path = ''/'',
        query = [], fragment = [], query_params = Map.empty, query_params_parsed = False \<rparr>" 8080]
  by (simp add: prod_eq_iff)

subsection \<open>C9\<close>

text \<open>
  C9 fails in the code. \<open>validate\<close> never runs the constructor: it reports every input
  valid, with an empty reason, also an input for which \<open>parse\<close> returns no value, such as
  a URL whose port is not a number.
\<close>

theorem validate_accepts_what_parse_rejects:
  "parse ''http://example.com:port/'' = Inr None
   \<and> validate ''http://example.com:port/'' = Inr \<lparr> valid = True, reason = [] \<rparr>
   \<and> validate url = Inr \<lparr> valid = True, reason = [] \<rparr>"
  by (simp add: parse_def validate_def ctor_port_text)

subsection \<open>C10\<close>

text \<open>
  C10. When the port captured in the authority is the text \<open>0\<close>, \<open>parse\<close> succeeds, the
  port of the value is 0 whatever the table of default ports holds for the scheme, and
  \<open>to_string\<close> has no port segment.
\<close>

theorem explicit_port_zero:
  assumes "url_parts url = Some (sch, authority, pth, qry, frg)"
    and "authority_parts authority = Some (h, ''0'')"
  shows "\<exists>u. parse url = Inr (Some u) \<and> port u = 0 \<and> host u = h
           \<and> scheme u = map tolower sch
           \<and> to_string u = map tolower sch @ ''://'' @ h @ (if pth \<noteq> [] then pth else ''/'')
               @ (if qry \<noteq> [] then ''?'' @ qry else [])
               @ (if frg \<noteq> [] then ''#'' @ frg else [])"
proof -
  from authority_parts_sound [OF assms(2)] have "authority \<noteq> []"
    using host_form_not_Nil by auto
  with assms show ?thesis
    by (simp add: parse_def URLImpl_ctor_parts parse_authority_parts port_try_eval to_string_eq)
qed

theorem explicit_port_zero_witness:
  "url_parts ''http://example.com:0/'' = Some (''http'', ''example.com:0'', ''/'', [], [])
   \<and> authority_parts ''example.com:0'' = Some (''example.com'', ''0'')
   \<and> default_ports ''http'' = Some 80
   \<and> (\<exists>u. parse ''http://example.com:0/'' = Inr (Some u) \<and> port u = 0
          \<and> host u = ''example.com'' \<and> scheme u = ''http''
          \<and> to_string u = ''http://example.com/'')"
  using explicit_port_zero [OF url_parts_port_0 authority_parts_port_0]
    url_parts_port_0 authority_parts_port_0 default_ports_eval(1)
  by (simp add: char_eval)

end
